theory Spec2Isabelle
  imports Main "HOL-Library.Word" "HOL-Library.Multiset"
begin

section \<open>Timer nodes and the shared store\<close>

text \<open>
  The source is \<^verbatim>\<open>utils/timer.hpp\<close>, the second document of
  \<^verbatim>\<open>src/include/utils/logger.hpp\<close>: a \<^verbatim>\<open>TimerNode\<close> struct, a \<^verbatim>\<open>MinHeap\<close> of
  \<^verbatim>\<open>std::shared_ptr<TimerNode>\<close>, the \<^verbatim>\<open>TimerManager\<close> singleton and the \<^verbatim>\<open>Timer\<close>
  class. \<^verbatim>\<open>src/unnamed/part_001\<close> is an older revision of the same header; its
  \<^verbatim>\<open>MinHeap\<close> is the same, its \<^verbatim>\<open>TimerManager\<close> differs in the sentinel, in
  \<^verbatim>\<open>set_interval\<close> and in \<^verbatim>\<open>check_task\<close>, and it is not the one embedded here.

  A shared pointer is an address; the nodes live in a store from addresses to
  records, because the heap, the handles and the dispatcher all mutate the same node.
  \<^verbatim>\<open>uint32_t\<close> is \<open>32 word\<close>, \<^verbatim>\<open>uint64_t\<close> and \<^verbatim>\<open>unsigned long long\<close> are
  \<open>64 word\<close>, \<^verbatim>\<open>unsigned\<close> is \<open>32 word\<close>; a \<^verbatim>\<open>std::function\<close> is an optional opaque
  callback.
\<close>

type_synonym addr = nat
type_synonym callback = nat

datatype error = OutOfRange | NullHandler

record TimerNode =
  name :: string
  func :: "callback option"
  index :: "32 word"
  interval_ns :: "64 word"
  delay_ns :: "64 word"
  next_tp :: "64 word"
  running :: bool

text \<open>\<^verbatim>\<open>TimerNode::kMaxTimePoint\<close>, the sentinel of a stopped timer.\<close>

definition kMaxTimePoint :: "64 word" where
  "kMaxTimePoint = 0x7fffffffffffffff"

text \<open>The default member initialisers of \<^verbatim>\<open>TimerNode\<close>.\<close>

definition new_TimerNode :: TimerNode where
  "new_TimerNode =
     \<lparr>name = [], func = None, index = 0, interval_ns = 0, delay_ns = 0,
      next_tp = kMaxTimePoint, running = False\<rparr>"

text \<open>
  \<open>buff\<close> is \<^verbatim>\<open>MinHeap::buff_\<close>, \<open>nodes\<close> the store, \<open>fresh\<close> the next address
  \<^verbatim>\<open>std::make_shared\<close> hands out.
\<close>

record state =
  buff :: "addr list"
  nodes :: "addr \<Rightarrow> TimerNode"
  fresh :: addr

definition make_shared :: "state \<Rightarrow> addr \<times> state" where
  "make_shared st =
     (fresh st, st\<lparr>nodes := (nodes st)(fresh st := new_TimerNode), fresh := Suc (fresh st)\<rparr>)"

text \<open>\<^verbatim>\<open>operator<(const TimerHandler &, const TimerHandler &)\<close>\<close>

definition less_handler :: "state \<Rightarrow> addr \<Rightarrow> addr \<Rightarrow> bool" where
  "less_handler st left right \<longleftrightarrow> next_tp (nodes st left) < next_tp (nodes st right)"

section \<open>MinHeap\<close>

definition heap_empty :: "state \<Rightarrow> bool" where
  "heap_empty st \<longleftrightarrow> buff st = []"

text \<open>\<^verbatim>\<open>buff_.at(i)\<close> throws \<^verbatim>\<open>std::out_of_range\<close> when \<open>i\<close> is not below the size.\<close>

definition heap_at :: "state \<Rightarrow> nat \<Rightarrow> error + addr" where
  "heap_at st i = (if i < length (buff st) then Inr (buff st ! i) else Inl OutOfRange)"

definition heap_top :: "state \<Rightarrow> error + addr" where
  "heap_top st = heap_at st 0"

text \<open>
  \<^verbatim>\<open>find_min_child\<close>: both reads are guarded by the size tests just above them, so they
  cannot throw.
\<close>

definition find_min_child :: "state \<Rightarrow> 32 word \<Rightarrow> 32 word" where
  "find_min_child st pos =
     (let wrap_pos = pos + 1;
          left_pos = push_bit 1 wrap_pos - 1;
          right_pos = left_pos + 1
      in if length (buff st) \<le> unat left_pos then pos
         else if length (buff st) \<le> unat right_pos then left_pos
         else if less_handler st (buff st ! unat left_pos) (buff st ! unat right_pos)
              then left_pos else right_pos)"

text \<open>
  The two statements \<^verbatim>\<open>buff_[index] = p; buff_[index]->index = index;\<close> of both
  sifts: slot \<open>index\<close> receives the pointer \<open>p\<close>, then the node now in that slot records
  its position.
\<close>

definition move_to :: "state \<Rightarrow> 32 word \<Rightarrow> addr \<Rightarrow> state" where
  "move_to st ix p =
     (let st1 = st\<lparr>buff := (buff st)[unat ix := p]\<rparr>;
          q = buff st1 ! unat ix
      in st1\<lparr>nodes := (nodes st1)(q := (nodes st1 q)\<lparr>index := ix\<rparr>)\<rparr>)"

text \<open>
  The loop of \<^verbatim>\<open>percolate_up\<close>. \<open>tmp\<close> is the node being raised. The unchecked
  \<^verbatim>\<open>buff_[index]\<close> writes to a slot that an earlier \<^verbatim>\<open>at\<close> has already read: \<open>pos\<close> in
  the first round, the previous parent afterwards.
\<close>

function percolate_up_loop ::
  "addr \<Rightarrow> state \<Rightarrow> 32 word \<Rightarrow> 32 word \<Rightarrow> error + (state \<times> 32 word)" where
  "percolate_up_loop tmp st wrap_pos wrap_pi =
     (if 1 \<le> wrap_pi then
        (case heap_at st (unat (wrap_pi - 1)) of
           Inl e \<Rightarrow> Inl e
         | Inr p \<Rightarrow>
             if less_handler st tmp p
             then percolate_up_loop tmp (move_to st (wrap_pos - 1) p) wrap_pi (drop_bit 1 wrap_pi)
             else Inr (st, wrap_pos))
      else Inr (st, wrap_pos))"
  by pat_completeness auto
termination
proof (relation "measure (\<lambda>(tmp, st, wrap_pos, wrap_pi). unat wrap_pi)")
  show "wf (measure (\<lambda>(tmp, st, wrap_pos, wrap_pi). unat wrap_pi))"
    by simp
next
  fix tmp :: addr and st :: state and wrap_pos wrap_pi :: "32 word" and p :: addr
  assume "1 \<le> wrap_pi"
  then have "0 < unat wrap_pi"
    by (simp add: word_le_nat_alt)
  then have "unat wrap_pi div 2 < unat wrap_pi"
    by simp
  moreover have "unat (drop_bit 1 wrap_pi) = unat wrap_pi div 2"
    unfolding unat_drop_bit_eq by (simp add: drop_bit_eq_div)
  ultimately show "((tmp, move_to st (wrap_pos - 1) p, wrap_pi, drop_bit 1 wrap_pi),
              (tmp, st, wrap_pos, wrap_pi))
             \<in> measure (\<lambda>(tmp, st, wrap_pos, wrap_pi). unat wrap_pi)"
    by (simp del: drop_bit_Suc_minus_bit0 drop_bit_of_Suc_0)
qed

text \<open>
  The closing \<^verbatim>\<open>if (wrap_pos - 1 != pos)\<close> of both sifts: the node records its slot
  first, then \<^verbatim>\<open>buff_.at(index) = tmp\<close> stores it.
\<close>

definition settle :: "addr \<Rightarrow> 32 word \<Rightarrow> state \<times> 32 word \<Rightarrow> error + state" where
  "settle tmp pos r =
     (case r of (st, wrap_pos) \<Rightarrow>
        if wrap_pos - 1 \<noteq> pos then
          (let ix = wrap_pos - 1;
               st1 = st\<lparr>nodes := (nodes st)(tmp := (nodes st tmp)\<lparr>index := ix\<rparr>)\<rparr>
           in case heap_at st1 (unat ix) of
                Inl e \<Rightarrow> Inl e
              | Inr _ \<Rightarrow> Inr (st1\<lparr>buff := (buff st1)[unat ix := tmp]\<rparr>))
        else Inr st)"

definition percolate_up :: "state \<Rightarrow> 32 word \<Rightarrow> error + state" where
  "percolate_up st pos =
     (let wrap_pos = pos + 1 in
      case heap_at st (unat pos) of
        Inl e \<Rightarrow> Inl e
      | Inr tmp \<Rightarrow>
          (case percolate_up_loop tmp st wrap_pos (drop_bit 1 wrap_pos) of
             Inl e \<Rightarrow> Inl e
           | Inr r \<Rightarrow> settle tmp pos r))"

text \<open>
  The loop of \<^verbatim>\<open>percolate_down\<close>. With 32-bit positions the child computation wraps
  once the vector holds more than \<open>2^31\<close> pointers, and the loop may then cycle: the
  result is an option, \<open>None\<close> standing for a run that never leaves the loop.
\<close>

partial_function (option) percolate_down_loop ::
  "addr \<Rightarrow> state \<Rightarrow> 32 word \<Rightarrow> 32 word \<Rightarrow> (error + (state \<times> 32 word)) option" where
  "percolate_down_loop tmp st wrap_pos child_index =
     (if child_index \<noteq> wrap_pos - 1 then
        (case heap_at st (unat child_index) of
           Inl e \<Rightarrow> Some (Inl e)
         | Inr c \<Rightarrow>
             if less_handler st c tmp then
               (case heap_at st (unat (wrap_pos - 1)) of
                  Inl e \<Rightarrow> Some (Inl e)
                | Inr _ \<Rightarrow>
                    percolate_down_loop tmp (move_to st (wrap_pos - 1) c) (child_index + 1)
                      (find_min_child (move_to st (wrap_pos - 1) c) child_index))
             else Some (Inr (st, wrap_pos)))
      else Some (Inr (st, wrap_pos)))"

declare percolate_down_loop.simps [code]

definition percolate_down :: "state \<Rightarrow> 32 word \<Rightarrow> (error + state) option" where
  "percolate_down st pos =
     (case heap_at st (unat pos) of
        Inl e \<Rightarrow> Some (Inl e)
      | Inr tmp \<Rightarrow>
          (case percolate_down_loop tmp st (pos + 1) (find_min_child st pos) of
             None \<Rightarrow> None
           | Some (Inl e) \<Rightarrow> Some (Inl e)
           | Some (Inr r) \<Rightarrow> Some (settle tmp pos r)))"

definition set_next_tp :: "state \<Rightarrow> addr \<Rightarrow> 64 word \<Rightarrow> state" where
  "set_next_tp st h tp = st\<lparr>nodes := (nodes st)(h := (nodes st h)\<lparr>next_tp := tp\<rparr>)\<rparr>"

definition update_top :: "state \<Rightarrow> 64 word \<Rightarrow> (error + state) option" where
  "update_top st tp =
     (case heap_at st 0 of
        Inl e \<Rightarrow> Some (Inl e)
      | Inr sp \<Rightarrow> percolate_down (set_next_tp st sp tp) 0)"

definition push :: "state \<Rightarrow> addr \<Rightarrow> state" where
  "push st h =
     (let st1 = st\<lparr>nodes := (nodes st)(h := (nodes st h)\<lparr>index := of_nat (length (buff st))\<rparr>)\<rparr>
      in st1\<lparr>buff := buff st1 @ [h]\<rparr>)"

definition push_and_sort :: "state \<Rightarrow> addr \<Rightarrow> error + state" where
  "push_and_sort st h = (let st1 = push st h in percolate_up st1 (index (nodes st1 h)))"

definition update_place :: "state \<Rightarrow> addr \<Rightarrow> 64 word \<Rightarrow> (error + state) option" where
  "update_place st h tp =
     (let old = next_tp (nodes st h);
          st1 = set_next_tp st h tp
      in if old < tp then percolate_down st1 (index (nodes st1 h))
         else if tp < old then Some (percolate_up st1 (index (nodes st1 h)))
         else Some (Inr st1))"

section \<open>TimerManager\<close>

text \<open>
  The mutexes, the condition variables, the wake-up flags and the thread pool are not
  modelled: every operation below is the body that runs under \<^verbatim>\<open>mtx_heap_\<close>, and
  \<^verbatim>\<open>set_heap_update_flag()\<close>, which only wakes the sleeping checker, is left out. The
  value read from \<^verbatim>\<open>get_system_ns()\<close> is the parameter \<open>now\<close>. The \<^verbatim>\<open>int\<close> returned
  by \<^verbatim>\<open>start\<close>, \<^verbatim>\<open>stop\<close> and \<^verbatim>\<open>set_interval\<close> is always the literal \<^verbatim>\<open>0\<close>.
\<close>

definition add_timer ::
  "state \<Rightarrow> string \<Rightarrow> callback option \<Rightarrow> 32 word \<Rightarrow> 32 word \<Rightarrow> addr option \<times> state" where
  "add_timer st nm f interval_ms delay_ms =
     (case make_shared st of
        (handler, st1) \<Rightarrow>
          let st2 = st1\<lparr>nodes := (nodes st1)(handler := (nodes st1 handler)
                      \<lparr>name := nm, func := f,
                       interval_ns := 1000 * 1000 * ucast interval_ms,
                       delay_ns := 1000 * 1000 * ucast delay_ms\<rparr>)\<rparr>
          in (Some handler, push st2 handler))"

definition lift_int :: "(error + state) option \<Rightarrow> (error + int \<times> state) option" where
  "lift_int r =
     (case r of
        None \<Rightarrow> None
      | Some (Inl e) \<Rightarrow> Some (Inl e)
      | Some (Inr st) \<Rightarrow> Some (Inr (0, st)))"

definition start :: "state \<Rightarrow> addr option \<Rightarrow> 64 word \<Rightarrow> (error + int \<times> state) option" where
  "start st handler now =
     (case handler of
        None \<Rightarrow> Some (Inr (0, st))
      | Some h \<Rightarrow>
          (let next_tp' = now + delay_ns (nodes st h)
           in lift_int (update_place st h next_tp')))"

definition stop :: "state \<Rightarrow> addr option \<Rightarrow> (error + int \<times> state) option" where
  "stop st handler =
     (case handler of
        None \<Rightarrow> Some (Inr (0, st))
      | Some h \<Rightarrow>
          (let next_tp' = kMaxTimePoint
           in lift_int (update_place st h next_tp')))"

text \<open>\<^verbatim>\<open>1000ull * 1000 * ms\<close>: the product is taken in 64 bits.\<close>

definition set_interval ::
  "state \<Rightarrow> addr option \<Rightarrow> 32 word \<Rightarrow> 64 word \<Rightarrow> (error + int \<times> state) option" where
  "set_interval st handler ms now =
     (case handler of
        None \<Rightarrow> Some (Inr (0, st))
      | Some h \<Rightarrow>
          (let st1 = st\<lparr>nodes := (nodes st)(h := (nodes st h)
                       \<lparr>interval_ns := 1000 * 1000 * ucast ms\<rparr>)\<rparr>;
               next_tp' = now + interval_ns (nodes st1 h)
           in lift_int (update_place st1 h next_tp')))"

text \<open>
  One round of the \<^verbatim>\<open>while (!exit_flag_)\<close> loop of \<^verbatim>\<open>check_task\<close>. \<open>curr_ns\<close> is the
  clock value the round reads once the heap is found non-empty. \<open>Wait tp\<close>:
  \<^verbatim>\<open>sleep_checker_for(tp)\<close>, then the next round; \<open>Busy\<close>: the warning and
  \<^verbatim>\<open>continue\<close>; \<open>Due h\<close>: \<^verbatim>\<open>return handler\<close>.

  \<^verbatim>\<open>auto handler = min_heap_.top()\<close> copies the pointer of the root, so the deadline,
  the interval and the \<^verbatim>\<open>running\<close> flag are all read from that node, also after
  \<^verbatim>\<open>update_top\<close> has moved it.
\<close>

datatype round = Wait "64 word" | Busy | Due addr

definition check_task_step ::
  "state \<Rightarrow> 64 word \<Rightarrow> (error + round \<times> state) option" where
  "check_task_step st curr_ns =
     (if heap_empty st then Some (Inr (Wait kMaxTimePoint, st))
      else
        (case heap_top st of
           Inl e \<Rightarrow> Some (Inl e)
         | Inr handler \<Rightarrow>
             if next_tp (nodes st handler) \<le> curr_ns then
               (let next_tp' = (if interval_ns (nodes st handler) = 0 then kMaxTimePoint
                                else next_tp (nodes st handler) + interval_ns (nodes st handler))
                in case update_top st next_tp' of
                     None \<Rightarrow> None
                   | Some (Inl e) \<Rightarrow> Some (Inl e)
                   | Some (Inr st') \<Rightarrow>
                       if running (nodes st' handler) then Some (Inr (Busy, st'))
                       else Some (Inr (Due handler, st')))
             else Some (Inr (Wait (next_tp (nodes st handler)), st))))"

text \<open>
  The whole loop, for the clock values of its successive rounds; when they are used up
  the exit flag is seen and \<^verbatim>\<open>nullptr\<close> is returned. Other threads are not interleaved.
\<close>

fun check_task :: "state \<Rightarrow> 64 word list \<Rightarrow> (error + addr option \<times> state) option" where
  "check_task st [] = Some (Inr (None, st))"
| "check_task st (t # ts) =
     (case check_task_step st t of
        None \<Rightarrow> None
      | Some (Inl e) \<Rightarrow> Some (Inl e)
      | Some (Inr (Due h, st')) \<Rightarrow> Some (Inr (Some h, st'))
      | Some (Inr (Wait tp, st')) \<Rightarrow> check_task st' ts
      | Some (Inr (Busy, st')) \<Rightarrow> check_task st' ts)"

text \<open>
  \<^verbatim>\<open>check_and_dispatch\<close> up to the call \<^verbatim>\<open>handler->func()\<close>: the handler whose callback
  is about to run, that callback, and the state at that moment (\<^verbatim>\<open>running\<close> just set
  by the \<^verbatim>\<open>RunningGuard\<close>). \<open>None\<close> in the result: \<^verbatim>\<open>check_task\<close> returned \<^verbatim>\<open>nullptr\<close>
  and nothing runs.
\<close>

definition check_and_dispatch ::
  "state \<Rightarrow> 64 word list \<Rightarrow> (error + (addr \<times> callback option) option \<times> state) option" where
  "check_and_dispatch st ts =
     (case check_task st ts of
        None \<Rightarrow> None
      | Some (Inl e) \<Rightarrow> Some (Inl e)
      | Some (Inr (None, st')) \<Rightarrow> Some (Inr (None, st'))
      | Some (Inr (Some h, st')) \<Rightarrow>
          Some (Inr (Some (h, func (nodes st' h)),
                     st'\<lparr>nodes := (nodes st')(h := (nodes st' h)\<lparr>running := True\<rparr>)\<rparr>)))"

section \<open>Timer\<close>

record Timer =
  handler :: "addr option"

definition Timer_new ::
  "state \<Rightarrow> string \<Rightarrow> callback option \<Rightarrow> 32 word \<Rightarrow> 32 word \<Rightarrow> Timer \<times> state" where
  "Timer_new st nm f interval_ms delay_ms =
     (case add_timer st nm f interval_ms delay_ms of (h, st') \<Rightarrow> (\<lparr>handler = h\<rparr>, st'))"

text \<open>\<^verbatim>\<open>~Timer()\<close>\<close>

definition Timer_delete :: "state \<Rightarrow> Timer \<Rightarrow> (error + int \<times> state) option" where
  "Timer_delete st t = stop st (handler t)"

definition Timer_start :: "state \<Rightarrow> Timer \<Rightarrow> 64 word \<Rightarrow> (error + int \<times> state) option" where
  "Timer_start st t now = start st (handler t) now"

definition Timer_stop :: "state \<Rightarrow> Timer \<Rightarrow> (error + int \<times> state) option" where
  "Timer_stop st t = stop st (handler t)"

definition Timer_set_interval ::
  "state \<Rightarrow> Timer \<Rightarrow> 32 word \<Rightarrow> 64 word \<Rightarrow> (error + int \<times> state) option" where
  "Timer_set_interval st t ms now = set_interval st (handler t) ms now"

text \<open>
  \<^verbatim>\<open>interval()\<close> dereferences \<^verbatim>\<open>handler_\<close> unchecked; a null handle is the error branch.
  The quotient is narrowed to \<^verbatim>\<open>unsigned\<close>.
\<close>

definition Timer_interval :: "state \<Rightarrow> Timer \<Rightarrow> error + 32 word" where
  "Timer_interval st t =
     (case handler t of
        None \<Rightarrow> Inl NullHandler
      | Some h \<Rightarrow> Inr (ucast (interval_ns (nodes st h) div 1000 div 1000)))"

section \<open>Predicates used in the statements\<close>

text \<open>What \<^verbatim>\<open>find_min_child\<close> returns when no 32-bit operation wraps.\<close>

definition min_child :: "state \<Rightarrow> nat \<Rightarrow> nat" where
  "min_child st h =
     (if length (buff st) \<le> 2 * h + 1 then h
      else if length (buff st) \<le> 2 * h + 2 then 2 * h + 1
      else if less_handler st (buff st ! (2 * h + 1)) (buff st ! (2 * h + 2)) then 2 * h + 1
      else 2 * h + 2)"

text \<open>
  One round of the sift-up loop as a step on (state, hole), and the condition under which
  the loop stops; the same for sift-down, where the hole moves to the smaller child.
\<close>

definition up_step :: "addr \<Rightarrow> state \<times> nat \<Rightarrow> state \<times> nat \<Rightarrow> bool" where
  "up_step tmp = (\<lambda>(st, h) (st', h').
     0 < h \<and> h < length (buff st) \<and> h' = (h - 1) div 2 \<and>
     less_handler st tmp (buff st ! h') \<and> st' = move_to st (of_nat h) (buff st ! h'))"

definition up_exit :: "addr \<Rightarrow> state \<Rightarrow> nat \<Rightarrow> bool" where
  "up_exit tmp st h \<longleftrightarrow> h = 0 \<or> \<not> less_handler st tmp (buff st ! ((h - 1) div 2))"

definition down_step :: "addr \<Rightarrow> state \<times> nat \<Rightarrow> state \<times> nat \<Rightarrow> bool" where
  "down_step tmp = (\<lambda>(st, h) (st', h').
     h < length (buff st) \<and> h' < length (buff st) \<and> (h' = 2 * h + 1 \<or> h' = 2 * h + 2) \<and>
     (\<forall>j < length (buff st). j = 2 * h + 1 \<or> j = 2 * h + 2 \<longrightarrow>
        next_tp (nodes st (buff st ! h')) \<le> next_tp (nodes st (buff st ! j))) \<and>
     less_handler st (buff st ! h') tmp \<and> st' = move_to st (of_nat h) (buff st ! h'))"

definition down_exit :: "addr \<Rightarrow> state \<Rightarrow> nat \<Rightarrow> bool" where
  "down_exit tmp st h \<longleftrightarrow>
     (\<forall>j < length (buff st). j = 2 * h + 1 \<or> j = 2 * h + 2 \<longrightarrow>
        \<not> less_handler st (buff st ! j) tmp)"

text \<open>
  Heap order on a list of deadlines; and the order that holds during a sift, when
  only the hole \<open>h\<close> may be out of place against its parent (sift-up) or against its
  children (sift-down).
\<close>

definition ordered :: "'a::linorder list \<Rightarrow> bool" where
  "ordered ks \<longleftrightarrow> (\<forall>i < length ks. 0 < i \<longrightarrow> ks ! ((i - 1) div 2) \<le> ks ! i)"

definition ord_up :: "'a::linorder list \<Rightarrow> nat \<Rightarrow> bool" where
  "ord_up ks h \<longleftrightarrow>
     (\<forall>i < length ks. 0 < i \<and> i \<noteq> h \<longrightarrow> ks ! ((i - 1) div 2) \<le> ks ! i) \<and>
     (0 < h \<longrightarrow> (\<forall>i < length ks. 0 < i \<and> (i - 1) div 2 = h \<longrightarrow> ks ! ((h - 1) div 2) \<le> ks ! i))"

definition ord_down :: "'a::linorder list \<Rightarrow> nat \<Rightarrow> bool" where
  "ord_down ks h \<longleftrightarrow>
     (\<forall>i < length ks. 0 < i \<and> (i - 1) div 2 \<noteq> h \<longrightarrow> ks ! ((i - 1) div 2) \<le> ks ! i) \<and>
     (0 < h \<longrightarrow> (\<forall>i < length ks. 0 < i \<and> (i - 1) div 2 = h \<longrightarrow> ks ! ((h - 1) div 2) \<le> ks ! i))"

text \<open>
  The slot invariant: the node in slot \<open>i\<close> of the vector has \<open>index = i\<close>.
\<close>

definition slot_inv :: "state \<Rightarrow> bool" where
  "slot_inv st \<longleftrightarrow> (\<forall>i < length (buff st). unat (index (nodes st (buff st ! i))) = i)"

text \<open>Heap order: no node is due before the node in its parent slot.\<close>

definition heap_ord :: "state \<Rightarrow> bool" where
  "heap_ord st \<longleftrightarrow>
     (\<forall>i < length (buff st). 0 < i \<longrightarrow>
        next_tp (nodes st (buff st ! ((i - 1) div 2))) \<le> next_tp (nodes st (buff st ! i)))"

text \<open>
  During a sift the node \<open>tmp\<close> is held out of the vector and slot \<open>h\<close> is the
  hole it will fill; every other slot is in order and does not hold \<open>tmp\<close>.
\<close>

definition hole_inv :: "state \<Rightarrow> nat \<Rightarrow> addr \<Rightarrow> bool" where
  "hole_inv st h tmp \<longleftrightarrow>
     h < length (buff st) \<and>
     (\<forall>i < length (buff st). i \<noteq> h \<longrightarrow>
        unat (index (nodes st (buff st ! i))) = i \<and> buff st ! i \<noteq> tmp)"

text \<open>The deadlines along the vector, with \<open>tmp\<close> put into the hole.\<close>

definition keys :: "state \<Rightarrow> nat \<Rightarrow> addr \<Rightarrow> 64 word list" where
  "keys st h tmp = map (\<lambda>a. next_tp (nodes st a)) ((buff st)[h := tmp])"

text \<open>One round of either sift: the node of slot \<open>h'\<close> moves into the hole \<open>h\<close>.\<close>

definition hole_move :: "state \<times> nat \<Rightarrow> state \<times> nat \<Rightarrow> bool" where
  "hole_move = (\<lambda>(st, h) (st', h').
     h < length (buff st) \<and> h' < length (buff st) \<and> h' \<noteq> h \<and>
     st' = move_to st (of_nat h) (buff st ! h'))"

text \<open>
  What a sift leaves alone: the nodes stored, the allocator, and every field of every
  node but \<open>index\<close>.
\<close>

definition sifted :: "state \<Rightarrow> state \<Rightarrow> bool" where
  "sifted st st' \<longleftrightarrow>
     mset (buff st') = mset (buff st) \<and> fresh st' = fresh st \<and>
     (\<forall>a. nodes st' a = (nodes st a)\<lparr>index := index (nodes st' a)\<rparr>)"

text \<open>
  Where a sift-down of \<open>h\<close> leaves the nodes: every slot holds the node it held, or
  \<open>h\<close>, or the node of one of its two child slots.
\<close>

definition raised :: "addr list \<Rightarrow> addr list \<Rightarrow> addr \<Rightarrow> bool" where
  "raised b b' h \<longleftrightarrow>
     (\<forall>i < length b. b' ! i = b ! i \<or> b' ! i = h \<or>
        (\<exists>c < length b. (c = 2 * i + 1 \<or> c = 2 * i + 2) \<and> b' ! i = b ! c))"

text \<open>
  Where a sift-up of \<open>h\<close> leaves the nodes: every slot holds the node it held, or
  \<open>h\<close>, or the node of its parent slot.
\<close>

definition lowered :: "addr list \<Rightarrow> addr list \<Rightarrow> addr \<Rightarrow> bool" where
  "lowered b b' h \<longleftrightarrow>
     (\<forall>i < length b. b' ! i = b ! i \<or> b' ! i = h \<or>
        0 < i \<and> b' ! i = b ! ((i - 1) div 2))"

text \<open>
  What a reposition of \<open>h\<close> to \<open>tp\<close> leaves alone: the nodes stored, and every field
  of every node but \<open>index\<close> and the deadline of \<open>h\<close>, which becomes \<open>tp\<close>.
\<close>

definition moved :: "addr \<Rightarrow> 64 word \<Rightarrow> state \<Rightarrow> state \<Rightarrow> bool" where
  "moved h tp st st' \<longleftrightarrow>
     mset (buff st') = mset (buff st) \<and> fresh st' = fresh st \<and>
     (\<forall>a. nodes st' a =
        (nodes st a)\<lparr>index := index (nodes st' a),
                     next_tp := (if a = h then tp else next_tp (nodes st a))\<rparr>)"

text \<open>A manager with no timer yet.\<close>

definition init_state :: state where
  "init_state = \<lparr>buff = [], nodes = (\<lambda>_. new_TimerNode), fresh = 0\<rparr>"

text \<open>One timer of period 1000 ms registered on the empty manager.\<close>

definition one_timer :: "Timer \<times> state" where
  "one_timer = Timer_new init_state ''t'' None 1000 0"

text \<open>
  Sequences of the two public heap mutations: \<open>Insert h\<close> is \<^verbatim>\<open>push_and_sort(h)\<close>,
  \<open>Reposition h tp\<close> is \<^verbatim>\<open>update_place(h, tp)\<close>. \<open>ops_ok\<close> asks that a node is
  inserted once and repositioned only while it is in the heap.
\<close>

datatype heap_op = Insert addr | Reposition addr "64 word"

fun apply_op :: "state \<Rightarrow> heap_op \<Rightarrow> (error + state) option" where
  "apply_op st (Insert h) = Some (push_and_sort st h)"
| "apply_op st (Reposition h tp) = update_place st h tp"

fun apply_ops :: "state \<Rightarrow> heap_op list \<Rightarrow> (error + state) option" where
  "apply_ops st [] = Some (Inr st)"
| "apply_ops st (x # xs) =
     (case apply_op st x of
        None \<Rightarrow> None
      | Some (Inl e) \<Rightarrow> Some (Inl e)
      | Some (Inr st') \<Rightarrow> apply_ops st' xs)"

fun ops_ok :: "addr set \<Rightarrow> heap_op list \<Rightarrow> bool" where
  "ops_ok S [] \<longleftrightarrow> True"
| "ops_ok S (Insert h # xs) \<longleftrightarrow> h \<notin> S \<and> ops_ok (insert h S) xs"
| "ops_ok S (Reposition h tp # xs) \<longleftrightarrow> h \<in> S \<and> ops_ok S xs"

fun inserted :: "heap_op list \<Rightarrow> addr set" where
  "inserted [] = {}"
| "inserted (Insert h # xs) = insert h (inserted xs)"
| "inserted (Reposition h tp # xs) = inserted xs"

text \<open>
  Two started timers: node 0 is due first, has a period of 1000 ms and is running;
  node 1 is idle.
\<close>

definition two_timers :: state where
  "two_timers =
     \<lparr>buff = [0, 1],
      nodes = (\<lambda>_. new_TimerNode)
        (0 := new_TimerNode\<lparr>index := 0, interval_ns := 1000000000, next_tp := 10,
               running := True\<rparr>,
         1 := new_TimerNode\<lparr>index := 1, next_tp := 20\<rparr>),
      fresh = 2\<rparr>"

text \<open>The six nodes of \<^verbatim>\<open>test_min_heap_up\<close>, not yet in the heap.\<close>

definition six_nodes :: state where
  "six_nodes =
     \<lparr>buff = [],
      nodes = (\<lambda>_. new_TimerNode)
        (0 := new_TimerNode\<lparr>next_tp := 1000\<rparr>, 1 := new_TimerNode\<lparr>next_tp := 2000\<rparr>,
         2 := new_TimerNode\<lparr>next_tp := 1500\<rparr>, 3 := new_TimerNode\<lparr>next_tp := 1300\<rparr>,
         4 := new_TimerNode\<lparr>next_tp := 3000\<rparr>, 5 := new_TimerNode\<lparr>next_tp := 100\<rparr>),
      fresh = 6\<rparr>"

text \<open>The deadline of the root after a sequence of operations.\<close>

definition root_after :: "state \<Rightarrow> heap_op list \<Rightarrow> 64 word option" where
  "root_after st ops =
     (case apply_ops st ops of
        Some (Inr st') \<Rightarrow> (case heap_top st' of Inr r \<Rightarrow> Some (next_tp (nodes st' r)) | Inl e \<Rightarrow> None)
      | _ \<Rightarrow> None)"

text \<open>The slots the sift-down loop reads and writes are occupied.\<close>

definition in_range :: "state \<Rightarrow> 32 word \<Rightarrow> 32 word \<Rightarrow> bool" where
  "in_range st wp ci \<longleftrightarrow>
     unat (wp - 1) < length (buff st) \<and> (ci = wp - 1 \<or> unat ci < length (buff st))"

text \<open>The local \<^verbatim>\<open>next_tp\<close> of \<^verbatim>\<open>check_task\<close>.\<close>

definition next_deadline :: "state \<Rightarrow> 64 word" where
  "next_deadline st =
     (if interval_ns (nodes st (buff st ! 0)) = 0 then kMaxTimePoint
      else next_tp (nodes st (buff st ! 0)) + interval_ns (nodes st (buff st ! 0)))"

text \<open>
  The handles that successive rounds of \<^verbatim>\<open>check_task\<close> return, one round per clock
  value; \<^verbatim>\<open>check_and_dispatch\<close> runs the callback of each. Callbacks are taken to
  finish, and no other call to intervene, between two rounds.
\<close>

fun dispatched :: "state \<Rightarrow> 64 word list \<Rightarrow> (error + addr list) option" where
  "dispatched st [] = Some (Inr [])"
| "dispatched st (t # ts) =
     (case check_task_step st t of
        None \<Rightarrow> None
      | Some (Inl e) \<Rightarrow> Some (Inl e)
      | Some (Inr (r, st')) \<Rightarrow>
          (case dispatched st' ts of
             None \<Rightarrow> None
           | Some (Inl e) \<Rightarrow> Some (Inl e)
           | Some (Inr hs) \<Rightarrow> Some (Inr ((case r of Due h \<Rightarrow> [h] | _ \<Rightarrow> []) @ hs))))"



text \<open>The vector and the slot of node \<open>a\<close> after an operation of the manager.\<close>

definition slot_after :: "(error + int \<times> state) option \<Rightarrow> addr \<Rightarrow> (addr list \<times> 32 word) option" where
  "slot_after r a =
     (case r of Some (Inr (_, st')) \<Rightarrow> Some (buff st', index (nodes st' a)) | _ \<Rightarrow> None)"

text \<open>
  A heap whose two nodes both carry a deadline beyond the sentinel \<open>kMaxTimePoint\<close>
  (nothing in \<^verbatim>\<open>start\<close> or \<^verbatim>\<open>set_interval\<close> keeps \<open>now + delay\<close> below it).
\<close>

definition late_timers :: state where
  "late_timers = \<lparr>buff = [0, 1],
     nodes = (\<lambda>_. new_TimerNode)
       (0 := new_TimerNode\<lparr>index := 0, next_tp := - 2\<rparr>,
        1 := new_TimerNode\<lparr>index := 1, next_tp := - 1\<rparr>),
     fresh = 2\<rparr>"

section \<open>Proofs\<close>

subsection \<open>Positions without wrap-around, and the runs of the two sifts\<close>

declare percolate_up_loop.simps [simp del]

lemma unat_drop_bit1: "unat (drop_bit 1 (w :: 32 word)) = unat w div 2"
  unfolding unat_drop_bit_eq by (simp add: drop_bit_eq_div)

lemma unat_pred: "0 < unat (w :: 32 word) \<Longrightarrow> unat (w - 1) = unat w - 1"
  by (simp add: unat_sub word_le_nat_alt)

lemma unat_succ: "unat (w :: 32 word) < 2 ^ 31 \<Longrightarrow> unat (w + 1) = unat w + 1"
  by (simp add: unat_word_ariths)

lemma unat_double:
  assumes "unat (w :: 32 word) < 2 ^ 31"
  shows "unat (push_bit 1 w) = 2 * unat w"
proof -
  have "unat w * unat (2 :: 32 word) < 2 ^ LENGTH(32)"
    using assms by simp
  then have "unat (w * 2) = unat w * unat (2 :: 32 word)"
    by (simp only: unat_mult_lem)
  then show ?thesis
    by (simp add: push_bit_eq_mult)
qed

lemma unat_left:
  assumes "unat (w :: 32 word) + 1 < 2 ^ 31"
  shows "unat (push_bit 1 (w + 1) - 1) = 2 * unat w + 1"
proof -
  have a: "unat (w + 1) = unat w + 1"
    using assms by (simp add: unat_succ)
  have b: "unat (push_bit 1 (w + 1)) = 2 * (unat w + 1)"
    using assms a unat_double [of "w + 1"] by simp
  then have "0 < unat (push_bit 1 (w + 1))"
    by simp
  then have "unat (push_bit 1 (w + 1) - 1) = unat (push_bit 1 (w + 1)) - 1"
    by (rule unat_pred)
  then show ?thesis
    using b by simp
qed

lemma unat_right:
  assumes "unat (w :: 32 word) + 1 < 2 ^ 31"
  shows "unat (push_bit 1 (w + 1) - 1 + 1) = 2 * unat w + 2"
proof -
  have a: "unat (w + 1) = unat w + 1"
    using assms by (simp add: unat_succ)
  have b: "unat (push_bit 1 (w + 1)) = 2 * (unat w + 1)"
    using assms a unat_double [of "w + 1"] by simp
  have c: "push_bit 1 (w + 1) - 1 + 1 = push_bit 1 (w + 1)"
    by simp
  show ?thesis
    unfolding c b by simp
qed

lemma unat_of_nat32: "n < 2 ^ 31 \<Longrightarrow> unat (of_nat n :: 32 word) = n"
  by (simp add: unat_of_nat)

lemma find_min_child_unat:
  assumes "length (buff st) < 2 ^ 31" and "unat pos < length (buff st)"
  shows "unat (find_min_child st pos) = min_child st (unat pos)"
proof -
  have b: "unat pos + 1 < 2 ^ 31"
    using assms by simp
  show ?thesis
    unfolding find_min_child_def min_child_def Let_def
    by (simp only: unat_left [OF b] unat_right [OF b] if_distrib [of unat] cong: if_cong)
qed

lemma min_child_cases:
  "min_child st h = h \<and> length (buff st) \<le> 2 * h + 1 \<or>
   min_child st h < length (buff st) \<and> (min_child st h = 2 * h + 1 \<or> min_child st h = 2 * h + 2) \<and>
   (\<forall>j < length (buff st). j = 2 * h + 1 \<or> j = 2 * h + 2 \<longrightarrow>
      next_tp (nodes st (buff st ! min_child st h)) \<le> next_tp (nodes st (buff st ! j)))"
  by (auto simp: min_child_def less_handler_def)

lemma length_move_to [simp]: "length (buff (move_to st ix p)) = length (buff st)"
  by (simp add: move_to_def Let_def)

lemma percolate_up_loop_run:
  assumes "length (buff st) < 2 ^ 31" and "h < length (buff st)"
  shows "\<exists>st' h'. percolate_up_loop tmp st (of_nat (h + 1)) (drop_bit 1 (of_nat (h + 1)))
                     = Inr (st', of_nat (h' + 1)) \<and>
                   (up_step tmp)\<^sup>*\<^sup>* (st, h) (st', h') \<and> up_exit tmp st' h'"
  using assms
proof (induction h arbitrary: st rule: less_induct)
  case (less h)
  let ?wp = "of_nat (h + 1) :: 32 word"
  let ?wpi = "drop_bit 1 ?wp"
  have "h + 1 < 2 ^ 31"
    using less.prems by simp
  then have uwp: "unat ?wp = h + 1"
    by (rule unat_of_nat32)
  have uwpi: "unat ?wpi = (h + 1) div 2"
    by (simp only: unat_drop_bit1 uwp)
  show ?case
  proof (cases "h = 0")
    case True
    then have "unat ?wpi = 0"
      using uwpi by simp
    then have "\<not> 1 \<le> ?wpi"
      by (simp add: word_le_nat_alt)
    then have "percolate_up_loop tmp st ?wp ?wpi = Inr (st, ?wp)"
      by (subst percolate_up_loop.simps) simp
    moreover have "up_exit tmp st h"
      using True by (simp add: up_exit_def)
    ultimately show ?thesis
      by blast
  next
    case False
    define p where "p = (h - 1) div 2"
    have p: "p < h" "p + 1 = (h + 1) div 2"
      using False by (auto simp: p_def)
    have ge: "1 \<le> ?wpi"
      using uwpi p by (simp add: word_le_nat_alt)
    have "?wpi = of_nat (unat ?wpi)"
      by simp
    then have wpi: "?wpi = of_nat (p + 1)"
      by (simp only: uwpi p)
    have "unat (?wpi - 1) = unat ?wpi - 1"
      using uwpi p by (intro unat_pred) simp
    then have up1: "unat (?wpi - 1) = p"
      using uwpi p by simp
    have at: "heap_at st p = Inr (buff st ! p)"
      using p less.prems by (simp add: heap_at_def)
    have wp1: "?wp - 1 = of_nat h"
      by simp
    show ?thesis
    proof (cases "less_handler st tmp (buff st ! p)")
      case True
      let ?st2 = "move_to st (of_nat h) (buff st ! p)"
      have "length (buff ?st2) < 2 ^ 31" "p < length (buff ?st2)"
        using less.prems p by simp_all
      from less.IH [OF p(1) this] obtain st' h' where
        r: "percolate_up_loop tmp ?st2 (of_nat (p + 1)) (drop_bit 1 (of_nat (p + 1)))
              = Inr (st', of_nat (h' + 1))" and
        s: "(up_step tmp)\<^sup>*\<^sup>* (?st2, p) (st', h')" and
        e: "up_exit tmp st' h'"
        by blast
      have "up_step tmp (st, h) (?st2, p)"
        using False less.prems True by (simp add: up_step_def p_def)
      then have s': "(up_step tmp)\<^sup>*\<^sup>* (st, h) (st', h')"
        using s by (rule converse_rtranclp_into_rtranclp)
      have "percolate_up_loop tmp st ?wp ?wpi
              = percolate_up_loop tmp ?st2 ?wpi (drop_bit 1 ?wpi)"
        by (subst percolate_up_loop.simps) (simp only: ge up1 at True wp1 if_True sum.case)
      then have "percolate_up_loop tmp st ?wp ?wpi = Inr (st', of_nat (h' + 1))"
        using r by (simp only: wpi)
      then show ?thesis
        using s' e by blast
    next
      case nl: False
      have "percolate_up_loop tmp st ?wp ?wpi = Inr (st, ?wp)"
        by (subst percolate_up_loop.simps) (simp only: ge up1 at nl if_True if_False sum.case)
      moreover have "up_exit tmp st h"
        using nl by (simp add: up_exit_def p_def)
      ultimately show ?thesis
        by blast
    qed
  qed
qed

lemma percolate_down_loop_run:
  assumes "length (buff st) < 2 ^ 31" and "h < length (buff st)"
  shows "\<exists>st' h'. percolate_down_loop tmp st (of_nat (h + 1)) (find_min_child st (of_nat h))
                     = Some (Inr (st', of_nat (h' + 1))) \<and>
                   (down_step tmp)\<^sup>*\<^sup>* (st, h) (st', h') \<and> down_exit tmp st' h'"
  using assms
proof (induction "length (buff st) - h" arbitrary: st h rule: less_induct)
  case less
  let ?n = "length (buff st)"
  let ?wp = "of_nat (h + 1) :: 32 word"
  let ?pos = "of_nat h :: 32 word"
  let ?ci = "find_min_child st ?pos"
  define c where "c = min_child st h"
  have upos: "unat ?pos = h"
    using less.prems by (simp add: unat_of_nat32)
  have uci: "unat ?ci = c"
    using less.prems find_min_child_unat [of st ?pos] by (simp only: upos c_def)
  have "?ci = of_nat (unat ?ci)"
    by simp
  then have ci: "?ci = of_nat c"
    by (simp only: uci)
  have wp1: "?wp - 1 = ?pos"
    by simp
  consider
    (leaf) "c = h" "?n \<le> 2 * h + 1"
  | (child) "c < ?n" "c = 2 * h + 1 \<or> c = 2 * h + 2"
      "\<forall>j < ?n. j = 2 * h + 1 \<or> j = 2 * h + 2 \<longrightarrow>
         next_tp (nodes st (buff st ! c)) \<le> next_tp (nodes st (buff st ! j))"
    using min_child_cases [of st h] unfolding c_def by blast
  then show ?case
  proof cases
    case leaf
    then have "?ci = ?wp - 1"
      using ci by simp
    then have "percolate_down_loop tmp st ?wp ?ci = Some (Inr (st, ?wp))"
      by (subst percolate_down_loop.simps) simp
    moreover have "down_exit tmp st h"
      using leaf by (simp add: down_exit_def)
    ultimately show ?thesis
      by blast
  next
    case child
    have ne: "?ci \<noteq> ?wp - 1"
    proof
      assume "?ci = ?wp - 1"
      then have "unat ?ci = unat ?pos"
        by simp
      then show False
        using child uci upos by simp
    qed
    have atc: "heap_at st (unat ?ci) = Inr (buff st ! c)"
      using child uci by (simp add: heap_at_def)
    have ath: "heap_at st (unat (?wp - 1)) = Inr (buff st ! h)"
      using less.prems upos by (simp only: wp1) (simp add: heap_at_def)
    show ?thesis
    proof (cases "less_handler st (buff st ! c) tmp")
      case True
      let ?st2 = "move_to st ?pos (buff st ! c)"
      have "length (buff ?st2) - c < ?n - h" "length (buff ?st2) < 2 ^ 31" "c < length (buff ?st2)"
        using less.prems child by auto
      from less.hyps [OF this] obtain st' h' where
        r: "percolate_down_loop tmp ?st2 (of_nat (c + 1)) (find_min_child ?st2 (of_nat c))
              = Some (Inr (st', of_nat (h' + 1)))" and
        s: "(down_step tmp)\<^sup>*\<^sup>* (?st2, c) (st', h')" and
        e: "down_exit tmp st' h'"
        by blast
      have "down_step tmp (st, h) (?st2, c)"
        using less.prems child True by (simp add: down_step_def)
      then have s': "(down_step tmp)\<^sup>*\<^sup>* (st, h) (st', h')"
        using s by (rule converse_rtranclp_into_rtranclp)
      have "percolate_down_loop tmp st ?wp ?ci
              = percolate_down_loop tmp (move_to st (?wp - 1) (buff st ! c)) (?ci + 1)
                  (find_min_child (move_to st (?wp - 1) (buff st ! c)) ?ci)"
        by (subst percolate_down_loop.simps) (simp only: ne atc ath True if_True sum.case not_False_eq_True)
      also have "\<dots> = Some (Inr (st', of_nat (h' + 1)))"
        using r by (simp only: wp1 ci) (simp add: add.commute)
      finally show ?thesis
        using s' e by blast
    next
      case nl: False
      have "percolate_down_loop tmp st ?wp ?ci = Some (Inr (st, ?wp))"
        by (subst percolate_down_loop.simps) (simp only: ne atc nl if_True if_False sum.case not_False_eq_True)
      moreover have "down_exit tmp st h"
        using nl child by (auto simp: down_exit_def less_handler_def)
      ultimately show ?thesis
        by blast
    qed
  qed
qed

subsection \<open>Heap order on lists of deadlines\<close>

lemma ordered_root_min: "ordered ks \<Longrightarrow> i < length ks \<Longrightarrow> ks ! 0 \<le> ks ! i"
proof (induction i rule: less_induct)
  case (less i)
  show ?case
  proof (cases "i = 0")
    case True
    then show ?thesis by simp
  next
    case False
    then have "(i - 1) div 2 < i"
      by simp
    moreover from this have "(i - 1) div 2 < length ks"
      using less.prems by simp
    ultimately have "ks ! 0 \<le> ks ! ((i - 1) div 2)"
      using less by blast
    also have "\<dots> \<le> ks ! i"
      using less.prems False by (simp add: ordered_def)
    finally show ?thesis .
  qed
qed

lemma ord_up_done:
  assumes "ord_up ks h" and "h = 0 \<or> \<not> ks ! h < ks ! ((h - 1) div 2)"
  shows "ordered ks"
  unfolding ordered_def
proof (intro allI impI)
  fix i assume "i < length ks" "0 < i"
  then show "ks ! ((i - 1) div 2) \<le> ks ! i"
    using assms unfolding ord_up_def by (cases "i = h") auto
qed

lemma ord_down_done:
  assumes "ord_down ks h"
    and "\<forall>j < length ks. j = 2 * h + 1 \<or> j = 2 * h + 2 \<longrightarrow> \<not> ks ! j < ks ! h"
  shows "ordered ks"
  unfolding ordered_def
proof (intro allI impI)
  fix i assume i: "i < length ks" "0 < i"
  show "ks ! ((i - 1) div 2) \<le> ks ! i"
  proof (cases "(i - 1) div 2 = h")
    case True
    then have "i = 2 * h + 1 \<or> i = 2 * h + 2"
      using i by auto
    then have "\<not> ks ! i < ks ! h"
      using assms(2) i by blast
    then show ?thesis
      using True by simp
  next
    case False
    then show ?thesis
      using assms(1) i by (simp add: ord_down_def)
  qed
qed

lemma ord_up_swap:
  assumes o: "ord_up ks h" and h: "0 < h" "h < length ks"
    and p: "p = (h - 1) div 2" and lt: "ks ! h < ks ! p"
  shows "ord_up (ks[h := ks ! p, p := ks ! h]) p"
proof -
  let ?ks = "ks[h := ks ! p, p := ks ! h]"
  have ph: "p < h" "p < length ks"
    using h p by simp_all
  have nth_p: "?ks ! p = ks ! h"
    using ph by simp
  have nth_h: "?ks ! h = ks ! p"
    using ph h by simp
  have nth_o: "\<And>i. i \<noteq> p \<Longrightarrow> i \<noteq> h \<Longrightarrow> ?ks ! i = ks ! i"
    by simp
  have o1: "\<And>i. i < length ks \<Longrightarrow> 0 < i \<Longrightarrow> i \<noteq> h \<Longrightarrow> ks ! ((i - 1) div 2) \<le> ks ! i"
    using o by (simp add: ord_up_def)
  have o2: "\<And>i. i < length ks \<Longrightarrow> 0 < i \<Longrightarrow> (i - 1) div 2 = h \<Longrightarrow> ks ! p \<le> ks ! i"
    using o h p by (simp add: ord_up_def)
  have a: "?ks ! ((i - 1) div 2) \<le> ?ks ! i" if i: "i < length ks" "0 < i" "i \<noteq> p" for i
  proof -
    define q where "q = (i - 1) div 2"
    have q: "q < length ks" "q < i"
      using i by (simp_all add: q_def)
    show ?thesis
      unfolding q_def [symmetric]
    proof (cases "i = h")
      case True
      then have "q = p"
        by (simp add: q_def p)
      then show "?ks ! q \<le> ?ks ! i"
        unfolding True \<open>q = p\<close> nth_h nth_p using lt by simp
    next
      case ih: False
      have ii: "?ks ! i = ks ! i"
        using i ih by (intro nth_o) simp_all
      have le: "ks ! q \<le> ks ! i"
        using o1 [OF i(1,2) ih] by (simp add: q_def)
      consider "q = h" | "q = p" | "q \<noteq> h" "q \<noteq> p"
        by blast
      then show "?ks ! q \<le> ?ks ! i"
      proof cases
        case 1
        then have "ks ! p \<le> ks ! i"
          using o2 [OF i(1,2)] by (simp add: q_def)
        then show ?thesis
          unfolding ii unfolding 1 nth_h .
      next
        case 2
        have "ks ! h \<le> ks ! i"
          using le lt unfolding 2 by simp
        then show ?thesis
          unfolding ii unfolding 2 nth_p .
      next
        case 3
        have "?ks ! q = ks ! q"
          using 3 by (intro nth_o) simp_all
        then show ?thesis
          unfolding ii using le by simp
      qed
    qed
  qed
  have b: "?ks ! ((p - 1) div 2) \<le> ?ks ! i"
    if i: "i < length ks" "0 < i" "(i - 1) div 2 = p" and p0: "0 < p" for i
  proof -
    define g where "g = (p - 1) div 2"
    have g: "g < p" "g < length ks" "g \<noteq> h"
      using p0 ph h by (simp_all add: g_def)
    have gg: "?ks ! g = ks ! g"
      using g by (intro nth_o) simp_all
    have gp: "ks ! g \<le> ks ! p"
      using o1 [of p] p0 ph by (simp add: g_def)
    have ip: "i \<noteq> p"
      using i(2,3) by presburger
    show ?thesis
      unfolding g_def [symmetric] gg
    proof (cases "i = h")
      case True
      show "ks ! g \<le> ?ks ! i"
        unfolding True nth_h by (rule gp)
    next
      case False
      have "ks ! ((i - 1) div 2) \<le> ks ! i"
        using o1 [OF i(1,2) False] .
      then have "ks ! p \<le> ks ! i"
        unfolding i(3) .
      then show "ks ! g \<le> ?ks ! i"
        unfolding nth_o [OF ip False] using gp by simp
    qed
  qed
  show ?thesis
    unfolding ord_up_def length_list_update
  proof (intro conjI allI impI)
    fix i assume "i < length ks" "0 < i \<and> i \<noteq> p"
    then show "?ks ! ((i - 1) div 2) \<le> ?ks ! i"
      by (intro a) simp_all
  next
    fix i assume "0 < p" "i < length ks" "0 < i \<and> (i - 1) div 2 = p"
    then show "?ks ! ((p - 1) div 2) \<le> ?ks ! i"
      by (intro b) simp_all
  qed
qed

lemma ord_down_swap:
  assumes o: "ord_down ks h" and c: "c < length ks" "c = 2 * h + 1 \<or> c = 2 * h + 2"
    and m: "\<forall>j < length ks. j = 2 * h + 1 \<or> j = 2 * h + 2 \<longrightarrow> ks ! c \<le> ks ! j"
    and lt: "ks ! c < ks ! h"
  shows "ord_down (ks[h := ks ! c, c := ks ! h]) c"
proof -
  let ?ks = "ks[h := ks ! c, c := ks ! h]"
  have hc: "h < c" "(c - 1) div 2 = h" "0 < c"
    using c by auto
  have hl: "h < length ks"
    using hc c by simp
  have nth_c: "?ks ! c = ks ! h"
    using c by simp
  have nth_h: "?ks ! h = ks ! c"
    using hc hl by simp
  have nth_o: "\<And>i. i \<noteq> c \<Longrightarrow> i \<noteq> h \<Longrightarrow> ?ks ! i = ks ! i"
    by simp
  have o1: "\<And>i. i < length ks \<Longrightarrow> 0 < i \<Longrightarrow> (i - 1) div 2 \<noteq> h \<Longrightarrow> ks ! ((i - 1) div 2) \<le> ks ! i"
    using o by (simp add: ord_down_def)
  have o2: "\<And>i. i < length ks \<Longrightarrow> 0 < i \<Longrightarrow> (i - 1) div 2 = h \<Longrightarrow> 0 < h \<Longrightarrow> ks ! ((h - 1) div 2) \<le> ks ! i"
    using o by (simp add: ord_down_def)
  have a: "?ks ! ((i - 1) div 2) \<le> ?ks ! i" if i: "i < length ks" "0 < i" "(i - 1) div 2 \<noteq> c" for i
  proof -
    define q where "q = (i - 1) div 2"
    have q: "q < length ks" "q < i" "q \<noteq> c"
      using i by (simp_all add: q_def)
    show ?thesis
      unfolding q_def [symmetric]
    proof (cases "q = h")
      case True
      then have "i = 2 * h + 1 \<or> i = 2 * h + 2"
        using i(2) unfolding q_def by presburger
      then have ci: "ks ! c \<le> ks ! i"
        using m i by blast
      have "i \<noteq> h"
        using True q by simp
      show "?ks ! q \<le> ?ks ! i"
      proof (cases "i = c")
        case ic: True
        show ?thesis
          unfolding True ic nth_c nth_h using lt by simp
      next
        case ic: False
        show ?thesis
          unfolding True nth_h nth_o [OF ic \<open>i \<noteq> h\<close>] by (rule ci)
      qed
    next
      case qh: False
      have qi: "?ks ! q = ks ! q"
        using q qh by (intro nth_o) simp_all
      have ic: "i \<noteq> c"
        using qh hc unfolding q_def by blast
      show "?ks ! q \<le> ?ks ! i"
      proof (cases "i = h")
        case True
        then have "0 < h"
          using i by simp
        then have "ks ! ((h - 1) div 2) \<le> ks ! c"
          using o2 [OF c(1) hc(3) hc(2)] by simp
        then show ?thesis
          unfolding qi unfolding True nth_h q_def by simp
      next
        case False
        have "ks ! q \<le> ks ! i"
          using o1 [OF i(1,2)] qh unfolding q_def by simp
        then show ?thesis
          unfolding qi nth_o [OF ic False] .
      qed
    qed
  qed
  have b: "?ks ! ((c - 1) div 2) \<le> ?ks ! i"
    if i: "i < length ks" "0 < i" "(i - 1) div 2 = c" for i
  proof -
    have "c < i"
      using i(2,3) by presburger
    then have ne: "i \<noteq> c" "i \<noteq> h" "c \<noteq> h"
      using hc by simp_all
    have "ks ! ((i - 1) div 2) \<le> ks ! i"
      using i ne by (intro o1) simp_all
    then have "ks ! c \<le> ks ! i"
      unfolding i(3) .
    then show ?thesis
      unfolding hc(2) nth_h nth_o [OF ne(1,2)] .
  qed
  show ?thesis
    unfolding ord_down_def length_list_update
  proof (intro conjI allI impI)
    fix i assume "i < length ks" "0 < i \<and> (i - 1) div 2 \<noteq> c"
    then show "?ks ! ((i - 1) div 2) \<le> ?ks ! i"
      by (intro a) simp_all
  next
    fix i assume "i < length ks" "0 < i \<and> (i - 1) div 2 = c"
    then show "?ks ! ((c - 1) div 2) \<le> ?ks ! i"
      by (intro b) simp_all
  qed
qed

subsection \<open>The slot invariant across the moves of a sift\<close>

lemma up_step_hole_move: "up_step tmp x y \<Longrightarrow> hole_move x y"
  by (cases x, cases y) (auto simp: up_step_def hole_move_def)

lemma down_step_hole_move: "down_step tmp x y \<Longrightarrow> hole_move x y"
  by (cases x, cases y) (auto simp: down_step_def hole_move_def)

lemma move_to_eq:
  assumes "length (buff st) < 2 ^ 31" and "h < length (buff st)"
  shows "move_to st (of_nat h) p =
           st\<lparr>buff := (buff st)[h := p],
              nodes := (nodes st)(p := (nodes st p)\<lparr>index := of_nat h\<rparr>)\<rparr>"
proof -
  have "unat (of_nat h :: 32 word) = h"
    using assms by (intro unat_of_nat32) simp
  then show ?thesis
    using assms by (simp add: move_to_def Let_def)
qed

lemma slot_inv_hole:
  assumes "slot_inv st" and "h < length (buff st)"
  shows "hole_inv st h (buff st ! h)"
  unfolding hole_inv_def
proof (intro conjI allI impI)
  show "h < length (buff st)" by fact
next
  fix i assume i: "i < length (buff st)" "i \<noteq> h"
  show "unat (index (nodes st (buff st ! i))) = i"
    using assms i by (simp add: slot_inv_def)
  show "buff st ! i \<noteq> buff st ! h"
  proof
    assume "buff st ! i = buff st ! h"
    then have "unat (index (nodes st (buff st ! i))) = unat (index (nodes st (buff st ! h)))"
      by simp
    then show False
      using assms i by (simp add: slot_inv_def)
  qed
qed

lemma hole_move_step:
  assumes m: "hole_move (st, h) (st', k)" and n: "length (buff st) < 2 ^ 31"
  shows "length (buff st') = length (buff st)"
    and "fresh st' = fresh st"
    and "\<And>a. nodes st' a = (nodes st a)\<lparr>index := index (nodes st' a)\<rparr>"
    and "hole_inv st h tmp \<Longrightarrow> hole_inv st' k tmp"
    and "(buff st')[k := tmp] = ((buff st)[h := tmp])[h := (buff st)[h := tmp] ! k, k := tmp]"
proof -
  let ?c = "buff st ! k"
  have hk: "h < length (buff st)" "k < length (buff st)" "k \<noteq> h"
    using m by (simp_all add: hole_move_def)
  have st': "st' = st\<lparr>buff := (buff st)[h := ?c],
                      nodes := (nodes st)(?c := (nodes st ?c)\<lparr>index := of_nat h\<rparr>)\<rparr>"
    using m move_to_eq [OF n hk(1)] by (simp add: hole_move_def)
  show "length (buff st') = length (buff st)" "fresh st' = fresh st"
    by (simp_all add: st')
  show "nodes st' a = (nodes st a)\<lparr>index := index (nodes st' a)\<rparr>" for a
    by (simp add: st')
  show "(buff st')[k := tmp] = ((buff st)[h := tmp])[h := (buff st)[h := tmp] ! k, k := tmp]"
    using hk by (simp add: st')
  show "hole_inv st' k tmp" if hi: "hole_inv st h tmp"
    unfolding hole_inv_def
  proof (intro conjI allI impI)
    show "k < length (buff st')"
      using hk by (simp add: st')
  next
    fix i assume i: "i < length (buff st')" "i \<noteq> k"
    have il: "i < length (buff st)"
      using i by (simp add: st')
    have ck: "unat (index (nodes st ?c)) = k" "?c \<noteq> tmp"
      using hi hk by (simp_all add: hole_inv_def)
    have uh: "unat (of_nat h :: 32 word) = h"
      using n hk by (intro unat_of_nat32) simp
    show "unat (index (nodes st' (buff st' ! i))) = i"
    proof (cases "i = h")
      case True
      then show ?thesis
        using hk uh by (simp add: st')
    next
      case False
      then have ii: "unat (index (nodes st (buff st ! i))) = i"
        using hi il by (simp add: hole_inv_def)
      then have "buff st ! i \<noteq> ?c"
        using ck i by auto
      then show ?thesis
        using False ii by (simp add: st')
    qed
    show "buff st' ! i \<noteq> tmp"
    proof (cases "i = h")
      case True
      then show ?thesis
        using hk ck by (simp add: st')
    next
      case False
      then show ?thesis
        using hi il by (simp add: st' hole_inv_def)
    qed
  qed
qed

lemma hole_moves:
  assumes "hole_move\<^sup>*\<^sup>* (st, h) (st', h')"
    and "length (buff st) < 2 ^ 31" and "h < length (buff st)"
  shows "length (buff st') = length (buff st) \<and> h' < length (buff st) \<and> fresh st' = fresh st \<and>
         (\<forall>a. nodes st' a = (nodes st a)\<lparr>index := index (nodes st' a)\<rparr>) \<and>
         (hole_inv st h tmp \<longrightarrow> hole_inv st' h' tmp) \<and>
         mset ((buff st')[h' := tmp]) = mset ((buff st)[h := tmp])"
  using assms
proof (induction rule: rtranclp_induct2)
  case refl
  then show ?case by simp
next
  case (step st1 h1 st2 h2)
  then have ih: "length (buff st1) = length (buff st)" "h1 < length (buff st)"
      "fresh st1 = fresh st"
      "\<And>a. nodes st1 a = (nodes st a)\<lparr>index := index (nodes st1 a)\<rparr>"
      "hole_inv st h tmp \<Longrightarrow> hole_inv st1 h1 tmp"
      "mset ((buff st1)[h1 := tmp]) = mset ((buff st)[h := tmp])"
    by simp_all
  have n1: "length (buff st1) < 2 ^ 31"
    using ih step.prems by simp
  note s = hole_move_step [OF step.hyps(2) n1]
  have h2: "h2 < length (buff st1)" "h2 \<noteq> h1"
    using step.hyps(2) by (simp_all add: hole_move_def)
  let ?F = "(buff st1)[h1 := tmp]"
  have "(buff st2)[h2 := tmp] = ?F[h1 := ?F ! h2, h2 := ?F ! h1]"
    using s(5) [of tmp] ih(1,2) by simp
  moreover have "mset (?F[h1 := ?F ! h2, h2 := ?F ! h1]) = mset ?F"
    using h2 ih(1,2) by (intro mset_swap) simp_all
  ultimately have "mset ((buff st2)[h2 := tmp]) = mset ?F"
    by (simp only:)
  moreover have "nodes st2 a = (nodes st a)\<lparr>index := index (nodes st2 a)\<rparr>" for a
    using s(3) [of a] ih(4) [of a] by (metis TimerNode.surjective TimerNode.update_convs(3))
  ultimately show ?case
    using s(1,2,4) ih h2 by simp
qed

subsection \<open>Heap order across the moves of a sift\<close>

lemma keys_nth:
  "i < length (buff st) \<Longrightarrow>
     keys st h tmp ! i = next_tp (nodes st (if i = h then tmp else buff st ! i))"
  by (simp add: keys_def nth_list_update)

lemma length_keys [simp]: "length (keys st h tmp) = length (buff st)"
  by (simp add: keys_def)

lemma keys_step:
  assumes m: "hole_move (st, h) (st', k)" and n: "length (buff st) < 2 ^ 31"
  shows "keys st' k tmp = (keys st h tmp)[h := keys st h tmp ! k, k := keys st h tmp ! h]"
proof -
  note s = hole_move_step [OF m n]
  have hk: "h < length (buff st)" "k < length (buff st)" "k \<noteq> h"
    using m by (simp_all add: hole_move_def)
  have "next_tp (nodes st' a) = next_tp (nodes st a)" for a
    using s(3) [of a] by (metis TimerNode.select_convs(6) TimerNode.surjective TimerNode.update_convs(3))
  then have f: "(\<lambda>a. next_tp (nodes st' a)) = (\<lambda>a. next_tp (nodes st a))"
    by (rule ext)
  show ?thesis
    unfolding keys_def f s(5)
    using hk by (simp add: map_update)
qed

lemma up_steps_moves: "(up_step tmp)\<^sup>*\<^sup>* x y \<Longrightarrow> hole_move\<^sup>*\<^sup>* x y"
  using mono_rtranclp [of "up_step tmp" hole_move x y] up_step_hole_move by blast

lemma down_steps_moves: "(down_step tmp)\<^sup>*\<^sup>* x y \<Longrightarrow> hole_move\<^sup>*\<^sup>* x y"
  using mono_rtranclp [of "down_step tmp" hole_move x y] down_step_hole_move by blast

lemma up_steps:
  assumes "(up_step tmp)\<^sup>*\<^sup>* (st, h) (st', h')"
    and "length (buff st) < 2 ^ 31" and "h < length (buff st)"
  shows "h' \<le> h \<and> (h' = h \<longrightarrow> st' = st) \<and>
         (ord_up (keys st h tmp) h \<longrightarrow> ord_up (keys st' h' tmp) h')"
  using assms
proof (induction rule: rtranclp_induct2)
  case refl
  then show ?case by simp
next
  case (step st1 h1 st2 h2)
  then have ih: "h1 \<le> h" "ord_up (keys st h tmp) h \<Longrightarrow> ord_up (keys st1 h1 tmp) h1"
    by simp_all
  have l1: "length (buff st1) = length (buff st)" "h1 < length (buff st)"
    using hole_moves [OF up_steps_moves [OF step.hyps(1)] step.prems] by simp_all
  then have n1: "length (buff st1) < 2 ^ 31"
    using step.prems by simp
  have u: "0 < h1" "h2 = (h1 - 1) div 2" "less_handler st1 tmp (buff st1 ! h2)"
    using step.hyps(2) by (auto simp: up_step_def)
  then have lt: "h2 < h1"
    by simp
  have k: "keys st2 h2 tmp
             = (keys st1 h1 tmp)[h1 := keys st1 h1 tmp ! h2, h2 := keys st1 h1 tmp ! h1]"
    using keys_step [OF up_step_hole_move [OF step.hyps(2)] n1] .
  have "ord_up (keys st2 h2 tmp) h2" if "ord_up (keys st h tmp) h"
    unfolding k
  proof (rule ord_up_swap [OF ih(2) [OF that] u(1) _ u(2)])
    show "h1 < length (keys st1 h1 tmp)"
      using l1 by simp
    show "keys st1 h1 tmp ! h1 < keys st1 h1 tmp ! h2"
      using u(3) l1 lt by (simp add: keys_nth less_handler_def)
  qed
  then show ?case
    using lt ih(1) by simp
qed

lemma down_steps:
  assumes "(down_step tmp)\<^sup>*\<^sup>* (st, h) (st', h')"
    and "length (buff st) < 2 ^ 31" and "h < length (buff st)"
  shows "h \<le> h' \<and> (h' = h \<longrightarrow> st' = st) \<and>
         (ord_down (keys st h tmp) h \<longrightarrow> ord_down (keys st' h' tmp) h')"
  using assms
proof (induction rule: rtranclp_induct2)
  case refl
  then show ?case by simp
next
  case (step st1 h1 st2 h2)
  then have ih: "h \<le> h1" "ord_down (keys st h tmp) h \<Longrightarrow> ord_down (keys st1 h1 tmp) h1"
    by simp_all
  have l1: "length (buff st1) = length (buff st)" "h1 < length (buff st)"
    using hole_moves [OF down_steps_moves [OF step.hyps(1)] step.prems] by simp_all
  then have n1: "length (buff st1) < 2 ^ 31"
    using step.prems by simp
  have d: "h2 < length (buff st1)" "h2 = 2 * h1 + 1 \<or> h2 = 2 * h1 + 2"
      "\<forall>j < length (buff st1). j = 2 * h1 + 1 \<or> j = 2 * h1 + 2 \<longrightarrow>
         next_tp (nodes st1 (buff st1 ! h2)) \<le> next_tp (nodes st1 (buff st1 ! j))"
      "less_handler st1 (buff st1 ! h2) tmp"
    using step.hyps(2) by (auto simp: down_step_def)
  then have lt: "h1 < h2"
    by auto
  have k: "keys st2 h2 tmp
             = (keys st1 h1 tmp)[h1 := keys st1 h1 tmp ! h2, h2 := keys st1 h1 tmp ! h1]"
    using keys_step [OF down_step_hole_move [OF step.hyps(2)] n1] .
  have "ord_down (keys st2 h2 tmp) h2" if "ord_down (keys st h tmp) h"
    unfolding k
  proof (rule ord_down_swap [OF ih(2) [OF that] _ d(2)])
    show "h2 < length (keys st1 h1 tmp)"
      using d by simp
    show "\<forall>j < length (keys st1 h1 tmp). j = 2 * h1 + 1 \<or> j = 2 * h1 + 2 \<longrightarrow>
            keys st1 h1 tmp ! h2 \<le> keys st1 h1 tmp ! j"
      using d(1,3) lt by (auto simp: keys_nth)
    show "keys st1 h1 tmp ! h2 < keys st1 h1 tmp ! h1"
      using d(1,4) l1 lt by (simp add: keys_nth less_handler_def)
  qed
  then show ?case
    using lt ih(1) by simp
qed

lemma down_steps_buff:
  assumes "(down_step tmp)\<^sup>*\<^sup>* (st, h) (st', h')"
    and "length (buff st) < 2 ^ 31" and "h < length (buff st)"
  shows "\<forall>i < length (buff st).
           (h' \<le> i \<longrightarrow> buff st' ! i = buff st ! i) \<and>
           (i < h' \<longrightarrow> buff st' ! i = buff st ! i \<or>
              (\<exists>c < length (buff st). (c = 2 * i + 1 \<or> c = 2 * i + 2) \<and>
                 buff st' ! i = buff st ! c))"
  using assms
proof (induction rule: rtranclp_induct2)
  case refl
  then show ?case by simp
next
  case (step st1 h1 st2 h2)
  let ?n = "length (buff st)"
  have ih: "\<And>i. i < ?n \<Longrightarrow> h1 \<le> i \<Longrightarrow> buff st1 ! i = buff st ! i"
    "\<And>i. i < ?n \<Longrightarrow> i < h1 \<Longrightarrow> buff st1 ! i = buff st ! i \<or>
              (\<exists>c < ?n. (c = 2 * i + 1 \<or> c = 2 * i + 2) \<and> buff st1 ! i = buff st ! c)"
    using step.IH step.prems by simp_all
  have l1: "length (buff st1) = ?n" "h1 < ?n"
    using hole_moves [OF down_steps_moves [OF step.hyps(1)] step.prems] by simp_all
  then have n1: "length (buff st1) < 2 ^ 31"
    using step.prems by simp
  have d: "h2 < ?n" "h2 = 2 * h1 + 1 \<or> h2 = 2 * h1 + 2"
    "st2 = move_to st1 (of_nat h1) (buff st1 ! h2)"
    using step.hyps(2) l1 by (auto simp: down_step_def)
  have b2: "buff st2 = (buff st1)[h1 := buff st1 ! h2]"
    using move_to_eq [of st1 h1 "buff st1 ! h2"] n1 l1 d(3) by simp
  have c2: "buff st1 ! h2 = buff st ! h2"
    using ih(1) [of h2] d by auto
  show ?case
  proof (intro allI impI conjI)
    fix i assume i: "i < ?n" "h2 \<le> i"
    then have "i \<noteq> h1" "h1 \<le> i"
      using d(2) by auto
    then show "buff st2 ! i = buff st ! i"
      using ih(1) [OF i(1)] by (simp add: b2)
  next
    fix i assume i: "i < ?n" "i < h2"
    consider "i = h1" | "i < h1" | "h1 < i"
      by fastforce
    then show "buff st2 ! i = buff st ! i \<or>
              (\<exists>c < ?n. (c = 2 * i + 1 \<or> c = 2 * i + 2) \<and> buff st2 ! i = buff st ! c)"
    proof cases
      case 1
      then have "buff st2 ! i = buff st ! h2"
        using l1 c2 by (simp add: b2)
      then show ?thesis
        using d(1,2) 1 by blast
    next
      case 2
      then have "buff st2 ! i = buff st1 ! i"
        by (simp add: b2)
      then show ?thesis
        using ih(2) [OF i(1) 2] by simp
    next
      case 3
      then have "buff st2 ! i = buff st1 ! i"
        by (simp add: b2)
      then show ?thesis
        using ih(1) [OF i(1)] 3 by simp
    qed
  qed
qed

lemma up_steps_buff:
  assumes "(up_step tmp)\<^sup>*\<^sup>* (st, h) (st', h')"
    and "length (buff st) < 2 ^ 31" and "h < length (buff st)"
  shows "\<forall>i < length (buff st).
           (i \<le> h' \<longrightarrow> buff st' ! i = buff st ! i) \<and>
           (h' < i \<longrightarrow> buff st' ! i = buff st ! i \<or>
              0 < i \<and> buff st' ! i = buff st ! ((i - 1) div 2))"
  using assms
proof (induction rule: rtranclp_induct2)
  case refl
  then show ?case by simp
next
  case (step st1 h1 st2 h2)
  let ?n = "length (buff st)"
  have ih: "\<And>i. i < ?n \<Longrightarrow> i \<le> h1 \<Longrightarrow> buff st1 ! i = buff st ! i"
    "\<And>i. i < ?n \<Longrightarrow> h1 < i \<Longrightarrow> buff st1 ! i = buff st ! i \<or>
              0 < i \<and> buff st1 ! i = buff st ! ((i - 1) div 2)"
    using step.IH step.prems by simp_all
  have l1: "length (buff st1) = ?n" "h1 < ?n"
    using hole_moves [OF up_steps_moves [OF step.hyps(1)] step.prems] by simp_all
  then have n1: "length (buff st1) < 2 ^ 31"
    using step.prems by simp
  have d: "0 < h1" "h2 = (h1 - 1) div 2"
    "st2 = move_to st1 (of_nat h1) (buff st1 ! h2)"
    using step.hyps(2) by (auto simp: up_step_def)
  then have lt: "h2 < h1"
    by simp
  have b2: "buff st2 = (buff st1)[h1 := buff st1 ! h2]"
    using move_to_eq [of st1 h1 "buff st1 ! h2"] n1 l1 d(3) by simp
  have c2: "buff st1 ! h2 = buff st ! h2"
    using ih(1) [of h2] lt l1 by simp
  show ?case
  proof (intro allI impI conjI)
    fix i assume i: "i < ?n" "i \<le> h2"
    then have "i \<noteq> h1" "i \<le> h1"
      using lt by simp_all
    then show "buff st2 ! i = buff st ! i"
      using ih(1) [OF i(1)] by (simp add: b2)
  next
    fix i assume i: "i < ?n" "h2 < i"
    consider "i = h1" | "i < h1" | "h1 < i"
      by fastforce
    then show "buff st2 ! i = buff st ! i \<or>
              0 < i \<and> buff st2 ! i = buff st ! ((i - 1) div 2)"
    proof cases
      case 1
      then have "buff st2 ! i = buff st ! h2"
        using l1 c2 by (simp add: b2)
      then show ?thesis
        using d(1,2) 1 by simp
    next
      case 2
      then have "buff st2 ! i = buff st1 ! i"
        by (simp add: b2)
      then show ?thesis
        using ih(1) [OF i(1)] 2 by simp
    next
      case 3
      then have "buff st2 ! i = buff st1 ! i"
        by (simp add: b2)
      then show ?thesis
        using ih(2) [OF i(1) 3] by simp
    qed
  qed
qed

subsection \<open>The two sifts\<close>

lemma raised_refl: "raised b b h"
  by (simp add: raised_def)

lemma lowered_refl: "lowered b b h"
  by (simp add: lowered_def)

lemma sifted_refl: "sifted st st"
  by (simp add: sifted_def)

lemma sifted_length: "sifted st st' \<Longrightarrow> length (buff st') = length (buff st)"
  unfolding sifted_def by (metis size_mset)

lemma sifted_set: "sifted st st' \<Longrightarrow> set (buff st') = set (buff st)"
  unfolding sifted_def by (metis set_mset_mset)

lemma sifted_next_tp: "sifted st st' \<Longrightarrow> next_tp (nodes st' a) = next_tp (nodes st a)"
  unfolding sifted_def
  by (metis TimerNode.select_convs(6) TimerNode.surjective TimerNode.update_convs(3))

lemma keys_self: "keys st h (buff st ! h) = map (\<lambda>a. next_tp (nodes st a)) (buff st)"
  by (simp add: keys_def)

lemma heap_ord_ordered: "heap_ord st \<longleftrightarrow> ordered (map (\<lambda>a. next_tp (nodes st a)) (buff st))"
  by (auto simp: heap_ord_def ordered_def)

lemma settle_same:
  assumes "unat pos = h" and "h < 2 ^ 31"
  shows "settle tmp pos (st, of_nat (h + 1)) = Inr st"
proof -
  have "(of_nat (h + 1) :: 32 word) - 1 = of_nat (unat pos)"
    using assms by simp
  then show ?thesis
    by (simp add: settle_def)
qed

lemma settle_hole:
  assumes n: "length (buff st1) < 2 ^ 31" and hi: "hole_inv st1 h' tmp"
    and pos: "unat pos = h" and ne: "h' \<noteq> h"
  shows "\<exists>st'. settle tmp pos (st1, of_nat (h' + 1)) = Inr st' \<and> slot_inv st' \<and>
           buff st' = (buff st1)[h' := tmp] \<and> fresh st' = fresh st1 \<and>
           (\<forall>a. nodes st' a = (nodes st1 a)\<lparr>index := index (nodes st' a)\<rparr>)"
proof -
  let ?ix = "of_nat h' :: 32 word"
  let ?st' = "st1\<lparr>nodes := (nodes st1)(tmp := (nodes st1 tmp)\<lparr>index := ?ix\<rparr>),
                  buff := (buff st1)[h' := tmp]\<rparr>"
  have h': "h' < length (buff st1)"
    using hi by (simp add: hole_inv_def)
  have u: "unat ?ix = h'"
    using n h' by (intro unat_of_nat32) simp
  have w: "(of_nat (h' + 1) :: 32 word) - 1 = ?ix"
    by simp
  have "?ix \<noteq> pos"
    using u pos ne by auto
  then have "settle tmp pos (st1, of_nat (h' + 1)) = Inr ?st'"
    unfolding settle_def prod.case w Let_def
    using h' u by (simp add: heap_at_def)
  moreover have "slot_inv ?st'"
    unfolding slot_inv_def
  proof (intro allI impI)
    fix i assume "i < length (buff ?st')"
    then have i: "i < length (buff st1)"
      by simp
    show "unat (index (nodes ?st' (buff ?st' ! i))) = i"
    proof (cases "i = h'")
      case True
      then show ?thesis
        using h' u by simp
    next
      case False
      then show ?thesis
        using hi i by (simp add: hole_inv_def)
    qed
  qed
  ultimately show ?thesis
    by simp
qed

lemma percolate_up_correct:
  assumes n: "length (buff st) < 2 ^ 31" and s: "slot_inv st" and p: "unat pos < length (buff st)"
  shows "\<exists>st'. percolate_up st pos = Inr st' \<and> slot_inv st' \<and> sifted st st' \<and>
           unat (index (nodes st' (buff st ! unat pos))) \<le> unat pos \<and>
           lowered (buff st) (buff st') (buff st ! unat pos) \<and>
           (ord_up (map (\<lambda>a. next_tp (nodes st a)) (buff st)) (unat pos) \<longrightarrow> heap_ord st')"
proof -
  define h where "h = unat pos"
  define tmp where "tmp = buff st ! h"
  have h: "h < length (buff st)" "unat pos = h"
    using p by (simp_all add: h_def)
  have "pos = of_nat (unat pos)"
    by simp
  then have pos1: "pos + 1 = of_nat (h + 1)"
    unfolding h_def by simp
  from percolate_up_loop_run [OF n h(1), of tmp] obtain st1 h' where
    r: "percolate_up_loop tmp st (of_nat (h + 1)) (drop_bit 1 (of_nat (h + 1)))
          = Inr (st1, of_nat (h' + 1))" and
    steps: "(up_step tmp)\<^sup>*\<^sup>* (st, h) (st1, h')" and
    ex: "up_exit tmp st1 h'"
    by blast
  have m: "length (buff st1) = length (buff st)" "h' < length (buff st)" "fresh st1 = fresh st"
      "\<And>a. nodes st1 a = (nodes st a)\<lparr>index := index (nodes st1 a)\<rparr>"
      "hole_inv st1 h' tmp"
      "mset ((buff st1)[h' := tmp]) = mset (buff st)"
    using hole_moves [OF up_steps_moves [OF steps] n h(1), of tmp] slot_inv_hole [OF s h(1)]
    by (simp_all add: tmp_def)
  have u: "h' \<le> h" "h' = h \<Longrightarrow> st1 = st"
      "ord_up (keys st h tmp) h \<Longrightarrow> ord_up (keys st1 h' tmp) h'"
    using up_steps [OF steps n h(1)] by simp_all
  have at: "heap_at st (unat pos) = Inr tmp"
    using h by (simp add: heap_at_def tmp_def)
  have run: "percolate_up st pos = settle tmp pos (st1, of_nat (h' + 1))"
    apply (simp only: percolate_up_def Let_def pos1 at sum.case)
    apply (subst r)
    apply (simp only: sum.case)
    done
  have ord: "ordered (keys st1 h' tmp)" if "ord_up (keys st h tmp) h"
  proof (rule ord_up_done [OF u(3) [OF that]])
    show "h' = 0 \<or> \<not> keys st1 h' tmp ! h' < keys st1 h' tmp ! ((h' - 1) div 2)"
    proof (cases "h' = 0")
      case True
      then show ?thesis by simp
    next
      case False
      then have "(h' - 1) div 2 < h'"
        by simp
      then show ?thesis
        using ex False m(1,2) by (simp add: keys_nth up_exit_def less_handler_def)
    qed
  qed
  have ks: "keys st h tmp = map (\<lambda>a. next_tp (nodes st a)) (buff st)"
    unfolding tmp_def by (rule keys_self)
  show ?thesis
  proof (cases "h' = h")
    case True
    then have e: "st1 = st"
      by (rule u(2))
    have "percolate_up st pos = Inr st"
      unfolding run True e using h n by (intro settle_same) simp_all
    moreover have "heap_ord st" if "ord_up (map (\<lambda>a. next_tp (nodes st a)) (buff st)) (unat pos)"
      using ord that unfolding heap_ord_ordered h(2) ks True e by simp
    moreover have "unat (index (nodes st (buff st ! unat pos))) = unat pos"
      using s p by (simp add: slot_inv_def)
    ultimately show ?thesis
      using s sifted_refl lowered_refl by simp
  next
    case False
    have n1: "length (buff st1) < 2 ^ 31"
      using m n by simp
    from settle_hole [OF n1 m(5) h(2) False] obtain st' where
      st': "settle tmp pos (st1, of_nat (h' + 1)) = Inr st'" "slot_inv st'"
        "buff st' = (buff st1)[h' := tmp]" "fresh st' = fresh st1"
        "\<And>a. nodes st' a = (nodes st1 a)\<lparr>index := index (nodes st' a)\<rparr>"
      by blast
    have fr: "nodes st' a = (nodes st a)\<lparr>index := index (nodes st' a)\<rparr>" for a
      using st'(5) [of a] m(4) [of a]
      by (metis TimerNode.surjective TimerNode.update_convs(3))
    have sf: "sifted st st'"
      unfolding sifted_def using st'(3,4) m(3,6) fr by simp
    have "next_tp (nodes st' a) = next_tp (nodes st1 a)" for a
      using st'(5) [of a]
      by (metis TimerNode.select_convs(6) TimerNode.surjective TimerNode.update_convs(3))
    then have "map (\<lambda>a. next_tp (nodes st' a)) (buff st') = keys st1 h' tmp"
      unfolding keys_def st'(3) by simp
    then have "heap_ord st'" if "ord_up (map (\<lambda>a. next_tp (nodes st a)) (buff st)) (unat pos)"
      using ord that unfolding heap_ord_ordered h(2) ks by simp
    moreover have "unat (index (nodes st' (buff st ! unat pos))) = h'"
    proof -
      have "buff st' ! h' = tmp"
        using m(1,2) by (simp add: st'(3))
      moreover have "h' < length (buff st')"
        using m(1,2) by (simp add: st'(3))
      ultimately show ?thesis
        using st'(2) unfolding slot_inv_def h(2) tmp_def by metis
    qed
    moreover have "lowered (buff st) (buff st') (buff st ! unat pos)"
      unfolding lowered_def
    proof (intro allI impI)
      fix i assume i: "i < length (buff st)"
      show "buff st' ! i = buff st ! i \<or> buff st' ! i = buff st ! unat pos \<or>
              0 < i \<and> buff st' ! i = buff st ! ((i - 1) div 2)"
      proof (cases "i = h'")
        case True
        then show ?thesis
          using m(1,2) by (simp add: st'(3) tmp_def h(2))
      next
        case False
        then have "buff st' ! i = buff st1 ! i"
          by (simp add: st'(3))
        then show ?thesis
          using up_steps_buff [OF steps n h(1)] i False
          by (metis linorder_not_less)
      qed
    qed
    ultimately show ?thesis
      using run st'(1,2) sf u(1) h(2) by simp
  qed
qed

lemma percolate_down_correct:
  assumes n: "length (buff st) < 2 ^ 31" and s: "slot_inv st" and p: "unat pos < length (buff st)"
  shows "\<exists>st'. percolate_down st pos = Some (Inr st') \<and> slot_inv st' \<and> sifted st st' \<and>
           unat pos \<le> unat (index (nodes st' (buff st ! unat pos))) \<and>
           raised (buff st) (buff st') (buff st ! unat pos) \<and>
           (ord_down (map (\<lambda>a. next_tp (nodes st a)) (buff st)) (unat pos) \<longrightarrow> heap_ord st')"
proof -
  define h where "h = unat pos"
  define tmp where "tmp = buff st ! h"
  have h: "h < length (buff st)" "unat pos = h"
    using p by (simp_all add: h_def)
  have "pos = of_nat (unat pos)"
    by simp
  then have pos0: "pos = of_nat h"
    unfolding h_def .
  then have pos1: "pos + 1 = of_nat (h + 1)"
    by simp
  from percolate_down_loop_run [OF n h(1), of tmp] obtain st1 h' where
    r: "percolate_down_loop tmp st (of_nat (h + 1)) (find_min_child st (of_nat h))
          = Some (Inr (st1, of_nat (h' + 1)))" and
    steps: "(down_step tmp)\<^sup>*\<^sup>* (st, h) (st1, h')" and
    ex: "down_exit tmp st1 h'"
    by blast
  have m: "length (buff st1) = length (buff st)" "h' < length (buff st)" "fresh st1 = fresh st"
      "\<And>a. nodes st1 a = (nodes st a)\<lparr>index := index (nodes st1 a)\<rparr>"
      "hole_inv st1 h' tmp"
      "mset ((buff st1)[h' := tmp]) = mset (buff st)"
    using hole_moves [OF down_steps_moves [OF steps] n h(1), of tmp] slot_inv_hole [OF s h(1)]
    by (simp_all add: tmp_def)
  have u: "h \<le> h'" "h' = h \<Longrightarrow> st1 = st"
      "ord_down (keys st h tmp) h \<Longrightarrow> ord_down (keys st1 h' tmp) h'"
    using down_steps [OF steps n h(1)] by simp_all
  have at: "heap_at st (unat pos) = Inr tmp"
    using h by (simp add: heap_at_def tmp_def)
  have r': "percolate_down_loop tmp st (pos + 1) (find_min_child st pos)
          = Some (Inr (st1, of_nat (h' + 1)))"
    using r unfolding pos1 pos0 [symmetric] .
  have run: "percolate_down st pos = Some (settle tmp pos (st1, of_nat (h' + 1)))"
    apply (simp only: percolate_down_def at sum.case)
    apply (subst r')
    apply (simp only: sum.case option.case)
    done
  have ord: "ordered (keys st1 h' tmp)" if "ord_down (keys st h tmp) h"
  proof (rule ord_down_done [OF u(3) [OF that]])
    show "\<forall>j < length (keys st1 h' tmp). j = 2 * h' + 1 \<or> j = 2 * h' + 2 \<longrightarrow>
            \<not> keys st1 h' tmp ! j < keys st1 h' tmp ! h'"
      using ex m(1,2) by (auto simp: keys_nth down_exit_def less_handler_def)
  qed
  have ks: "keys st h tmp = map (\<lambda>a. next_tp (nodes st a)) (buff st)"
    unfolding tmp_def by (rule keys_self)
  show ?thesis
  proof (cases "h' = h")
    case True
    then have e: "st1 = st"
      by (rule u(2))
    have "settle tmp pos (st, of_nat (h + 1)) = Inr st"
      using h n by (intro settle_same) simp_all
    then have "percolate_down st pos = Some (Inr st)"
      unfolding run True e by simp
    moreover have "heap_ord st" if "ord_down (map (\<lambda>a. next_tp (nodes st a)) (buff st)) (unat pos)"
      using ord that unfolding heap_ord_ordered h(2) ks True e by simp
    moreover have "unat (index (nodes st (buff st ! unat pos))) = unat pos"
      using s p by (simp add: slot_inv_def)
    ultimately show ?thesis
      using s sifted_refl raised_refl by simp
  next
    case False
    have n1: "length (buff st1) < 2 ^ 31"
      using m n by simp
    from settle_hole [OF n1 m(5) h(2) False] obtain st' where
      st': "settle tmp pos (st1, of_nat (h' + 1)) = Inr st'" "slot_inv st'"
        "buff st' = (buff st1)[h' := tmp]" "fresh st' = fresh st1"
        "\<And>a. nodes st' a = (nodes st1 a)\<lparr>index := index (nodes st' a)\<rparr>"
      by blast
    have fr: "nodes st' a = (nodes st a)\<lparr>index := index (nodes st' a)\<rparr>" for a
      using st'(5) [of a] m(4) [of a]
      by (metis TimerNode.surjective TimerNode.update_convs(3))
    have sf: "sifted st st'"
      unfolding sifted_def using st'(3,4) m(3,6) fr by simp
    have "next_tp (nodes st' a) = next_tp (nodes st1 a)" for a
      using st'(5) [of a]
      by (metis TimerNode.select_convs(6) TimerNode.surjective TimerNode.update_convs(3))
    then have "map (\<lambda>a. next_tp (nodes st' a)) (buff st') = keys st1 h' tmp"
      unfolding keys_def st'(3) by simp
    then have "heap_ord st'" if "ord_down (map (\<lambda>a. next_tp (nodes st a)) (buff st)) (unat pos)"
      using ord that unfolding heap_ord_ordered h(2) ks by simp
    moreover have "unat (index (nodes st' (buff st ! unat pos))) = h'"
    proof -
      have "buff st' ! h' = tmp"
        using m(1,2) by (simp add: st'(3))
      moreover have "h' < length (buff st')"
        using m(1,2) by (simp add: st'(3))
      ultimately show ?thesis
        using st'(2) unfolding slot_inv_def h(2) tmp_def by metis
    qed
    moreover have "raised (buff st) (buff st') (buff st ! unat pos)"
      unfolding raised_def
    proof (intro allI impI)
      fix i assume i: "i < length (buff st)"
      show "buff st' ! i = buff st ! i \<or> buff st' ! i = buff st ! unat pos \<or>
              (\<exists>c < length (buff st). (c = 2 * i + 1 \<or> c = 2 * i + 2) \<and>
                 buff st' ! i = buff st ! c)"
      proof (cases "i = h'")
        case True
        then show ?thesis
          using m(1,2) by (simp add: st'(3) tmp_def h(2))
      next
        case False
        then have "buff st' ! i = buff st1 ! i"
          by (simp add: st'(3))
        then show ?thesis
          using down_steps_buff [OF steps n h(1)] i False
          by (metis linorder_not_less)
      qed
    qed
    ultimately show ?thesis
      using run st'(1,2) sf u(1) h(2) by simp
  qed
qed

subsection \<open>Replacing the root deadline and repositioning\<close>

lemma ord_down_update:
  assumes o: "ordered ks" and k: "k < length ks" and v: "k = 0 \<or> ks ! k \<le> v"
  shows "ord_down (ks[k := v]) k"
  unfolding ord_down_def length_list_update
proof (intro conjI allI impI)
  fix i assume i: "i < length ks" "0 < i \<and> (i - 1) div 2 \<noteq> k"
  then have q: "(i - 1) div 2 < length ks"
    by simp
  have le: "ks ! ((i - 1) div 2) \<le> ks ! i"
    using o i by (simp add: ordered_def)
  show "ks[k := v] ! ((i - 1) div 2) \<le> ks[k := v] ! i"
  proof (cases "i = k")
    case True
    then have "ks ! k \<le> v"
      using v i by simp
    then show ?thesis
      using True i le k by simp
  next
    case False
    then show ?thesis
      using i le by simp
  qed
next
  fix i assume k0: "0 < k" and i: "i < length ks" "0 < i \<and> (i - 1) div 2 = k"
  have "ks ! ((k - 1) div 2) \<le> ks ! k"
    using o k k0 by (simp add: ordered_def)
  also have "ks ! k \<le> ks ! i"
    using o i by (auto simp: ordered_def)
  finally have le: "ks ! ((k - 1) div 2) \<le> ks ! i" .
  have "(k - 1) div 2 \<noteq> k" "i \<noteq> k"
    using k0 i by auto
  then show "ks[k := v] ! ((k - 1) div 2) \<le> ks[k := v] ! i"
    using le by simp
qed

lemma ord_up_update:
  assumes o: "ordered ks" and k: "k < length ks" and v: "v \<le> ks ! k"
  shows "ord_up (ks[k := v]) k"
  unfolding ord_up_def length_list_update
proof (intro conjI allI impI)
  fix i assume i: "i < length ks" "0 < i \<and> i \<noteq> k"
  have le: "ks ! ((i - 1) div 2) \<le> ks ! i"
    using o i by (simp add: ordered_def)
  show "ks[k := v] ! ((i - 1) div 2) \<le> ks[k := v] ! i"
  proof (cases "(i - 1) div 2 = k")
    case True
    then show ?thesis
      using i le v k by simp
  next
    case False
    then show ?thesis
      using i le by simp
  qed
next
  fix i assume k0: "0 < k" and i: "i < length ks" "0 < i \<and> (i - 1) div 2 = k"
  have "ks ! ((k - 1) div 2) \<le> ks ! k"
    using o k k0 by (simp add: ordered_def)
  also have "ks ! k \<le> ks ! i"
    using o i by (auto simp: ordered_def)
  finally have le: "ks ! ((k - 1) div 2) \<le> ks ! i" .
  have "(k - 1) div 2 \<noteq> k" "i \<noteq> k"
    using k0 i by auto
  then show "ks[k := v] ! ((k - 1) div 2) \<le> ks[k := v] ! i"
    using le by simp
qed

lemma ord_up_snoc:
  assumes "ordered ks"
  shows "ord_up (ks @ [v]) (length ks)"
  unfolding ord_up_def
proof (intro conjI allI impI)
  fix i assume "i < length (ks @ [v])" "0 < i \<and> i \<noteq> length ks"
  then have i: "i < length ks" "0 < i"
    by simp_all
  then have "(i - 1) div 2 < length ks"
    by simp
  then show "(ks @ [v]) ! ((i - 1) div 2) \<le> (ks @ [v]) ! i"
    using assms i by (simp add: nth_append ordered_def)
next
  fix i assume "i < length (ks @ [v])" "0 < i \<and> (i - 1) div 2 = length ks"
  then have False
    by auto
  then show "(ks @ [v]) ! ((length ks - 1) div 2) \<le> (ks @ [v]) ! i" ..
qed

lemma slot_inv_distinct:
  assumes "slot_inv st" and "i < length (buff st)" and "j < length (buff st)"
    and "buff st ! i = buff st ! j"
  shows "i = j"
  using assms unfolding slot_inv_def by metis

lemma slot_inv_index:
  assumes "slot_inv st" and "h \<in> set (buff st)"
  shows "unat (index (nodes st h)) < length (buff st) \<and> buff st ! unat (index (nodes st h)) = h"
  using assms unfolding slot_inv_def in_set_conv_nth by auto

lemma buff_set_next_tp [simp]: "buff (set_next_tp st h tp) = buff st"
  by (simp add: set_next_tp_def)

lemma index_set_next_tp [simp]: "index (nodes (set_next_tp st h tp) a) = index (nodes st a)"
  by (simp add: set_next_tp_def)

lemma slot_inv_set_next_tp [simp]: "slot_inv (set_next_tp st h tp) = slot_inv st"
  unfolding slot_inv_def by (simp only: index_set_next_tp buff_set_next_tp)

lemma keys_set_next_tp:
  assumes s: "slot_inv st" and k: "k < length (buff st)"
  shows "map (\<lambda>a. next_tp (nodes (set_next_tp st (buff st ! k) tp) a)) (buff st)
           = (map (\<lambda>a. next_tp (nodes st a)) (buff st))[k := tp]"
proof (rule nth_equalityI)
  show "length (map (\<lambda>a. next_tp (nodes (set_next_tp st (buff st ! k) tp) a)) (buff st))
          = length ((map (\<lambda>a. next_tp (nodes st a)) (buff st))[k := tp])"
    by simp
next
  fix i assume "i < length (map (\<lambda>a. next_tp (nodes (set_next_tp st (buff st ! k) tp) a)) (buff st))"
  then have i: "i < length (buff st)"
    by simp
  have "buff st ! i = buff st ! k \<longleftrightarrow> i = k"
    using slot_inv_distinct [OF s i k] by auto
  then show "map (\<lambda>a. next_tp (nodes (set_next_tp st (buff st ! k) tp) a)) (buff st) ! i
               = (map (\<lambda>a. next_tp (nodes st a)) (buff st))[k := tp] ! i"
    using i k by (simp add: set_next_tp_def nth_list_update)
qed

lemma sifted_moved:
  assumes "sifted (set_next_tp st h tp) st'"
  shows "moved h tp st st'"
  unfolding moved_def
proof (intro conjI allI)
  show "mset (buff st') = mset (buff st)" "fresh st' = fresh st"
    using assms by (simp_all add: sifted_def set_next_tp_def)
  fix a
  have 1: "nodes st' a = (nodes (set_next_tp st h tp) a)\<lparr>index := index (nodes st' a)\<rparr>"
    using assms by (simp add: sifted_def)
  have 2: "nodes (set_next_tp st h tp) a
             = (nodes st a)\<lparr>next_tp := (if a = h then tp else next_tp (nodes st a))\<rparr>"
    by (simp add: set_next_tp_def)
  show "nodes st' a =
        (nodes st a)\<lparr>index := index (nodes st' a),
                     next_tp := (if a = h then tp else next_tp (nodes st a))\<rparr>"
    by (subst 1) (simp add: 2)
qed

lemma set_next_tp_same: "set_next_tp st h (next_tp (nodes st h)) = st"
  by (simp add: set_next_tp_def)

lemma moved_same: "moved h (next_tp (nodes st h)) st st"
  unfolding moved_def
proof (intro conjI allI)
  fix a
  show "nodes st a = (nodes st a)\<lparr>index := index (nodes st a),
          next_tp := if a = h then next_tp (nodes st h) else next_tp (nodes st a)\<rparr>"
    by (cases "a = h") simp_all
qed simp_all

lemma update_top_correct:
  assumes n: "length (buff st) < 2 ^ 31" and s: "slot_inv st" and ne: "buff st \<noteq> []"
  shows "\<exists>st'. update_top st tp = Some (Inr st') \<and> slot_inv st' \<and>
           moved (buff st ! 0) tp st st' \<and> (heap_ord st \<longrightarrow> heap_ord st')"
proof -
  let ?sp = "buff st ! 0"
  let ?st1 = "set_next_tp st ?sp tp"
  have l: "0 < length (buff st)"
    using ne by simp
  have run: "update_top st tp = percolate_down ?st1 0"
    using l by (simp add: update_top_def heap_at_def)
  from percolate_down_correct [of ?st1 0] n s l obtain st' where
    st': "percolate_down ?st1 0 = Some (Inr st')" "slot_inv st'" "sifted ?st1 st'"
      "ord_down (map (\<lambda>a. next_tp (nodes ?st1 a)) (buff ?st1)) 0 \<Longrightarrow> heap_ord st'"
    by auto
  have "heap_ord st'" if "heap_ord st"
  proof (rule st'(4))
    have "ordered (map (\<lambda>a. next_tp (nodes st a)) (buff st))"
      using that by (simp add: heap_ord_ordered)
    then have "ord_down ((map (\<lambda>a. next_tp (nodes st a)) (buff st))[0 := tp]) 0"
      using l by (intro ord_down_update) simp_all
    then show "ord_down (map (\<lambda>a. next_tp (nodes ?st1 a)) (buff ?st1)) 0"
      using keys_set_next_tp [OF s l, of tp] by simp
  qed
  then show ?thesis
    using run st'(1,2) sifted_moved [OF st'(3)] by simp
qed

lemma update_place_correct:
  assumes n: "length (buff st) < 2 ^ 31" and s: "slot_inv st" and h: "h \<in> set (buff st)"
  shows "\<exists>st'. update_place st h tp = Some (Inr st') \<and> slot_inv st' \<and>
           moved h tp st st' \<and> (heap_ord st \<longrightarrow> heap_ord st') \<and>
           (next_tp (nodes st h) < tp \<longrightarrow>
              unat (index (nodes st h)) \<le> unat (index (nodes st' h))) \<and>
           (tp < next_tp (nodes st h) \<longrightarrow>
              unat (index (nodes st' h)) \<le> unat (index (nodes st h))) \<and>
           (next_tp (nodes st h) \<le> tp \<longrightarrow> raised (buff st) (buff st') h) \<and>
           (tp \<le> next_tp (nodes st h) \<longrightarrow> lowered (buff st) (buff st') h)"
proof -
  define k where "k = unat (index (nodes st h))"
  let ?st1 = "set_next_tp st h tp"
  let ?ks = "map (\<lambda>a. next_tp (nodes st a)) (buff st)"
  have k: "k < length (buff st)" "buff st ! k = h"
    using slot_inv_index [OF s h] by (simp_all add: k_def)
  have ix: "index (nodes ?st1 h) = index (nodes st h)"
    by (simp add: set_next_tp_def)
  have ks1: "map (\<lambda>a. next_tp (nodes ?st1 a)) (buff ?st1) = ?ks[k := tp]"
    using keys_set_next_tp [OF s k(1), of tp] k(2) by simp
  have old: "?ks ! k = next_tp (nodes st h)"
    using k by simp
  consider (later) "next_tp (nodes st h) < tp" | (earlier) "tp < next_tp (nodes st h)"
    | (same) "tp = next_tp (nodes st h)"
    by (metis linorder_less_linear)
  then show ?thesis
  proof cases
    case later
    have run: "update_place st h tp = percolate_down ?st1 (index (nodes st h))"
      using later by (simp add: update_place_def Let_def ix)
    from percolate_down_correct [of ?st1 "index (nodes st h)"] n s k obtain st' where
      st': "percolate_down ?st1 (index (nodes st h)) = Some (Inr st')" "slot_inv st'"
        "sifted ?st1 st'"
        "ord_down (map (\<lambda>a. next_tp (nodes ?st1 a)) (buff ?st1)) k \<Longrightarrow> heap_ord st'"
        "k \<le> unat (index (nodes st' h))" "raised (buff st) (buff st') h"
      unfolding k_def by auto
    have "heap_ord st'" if "heap_ord st"
    proof (rule st'(4))
      have "ordered ?ks"
        using that by (simp add: heap_ord_ordered)
      then show "ord_down (map (\<lambda>a. next_tp (nodes ?st1 a)) (buff ?st1)) k"
        unfolding ks1 using k less_imp_le [OF later] old by (intro ord_down_update) simp_all
    qed
    then show ?thesis
      using run st'(1,2,5,6) sifted_moved [OF st'(3)] later order.asym [OF later]
      by (auto simp: k_def)
  next
    case earlier
    have "\<not> next_tp (nodes st h) < tp"
      using earlier by simp
    then have run: "update_place st h tp = Some (percolate_up ?st1 (index (nodes st h)))"
      using earlier by (simp add: update_place_def Let_def ix)
    from percolate_up_correct [of ?st1 "index (nodes st h)"] n s k obtain st' where
      st': "percolate_up ?st1 (index (nodes st h)) = Inr st'" "slot_inv st'"
        "sifted ?st1 st'"
        "ord_up (map (\<lambda>a. next_tp (nodes ?st1 a)) (buff ?st1)) k \<Longrightarrow> heap_ord st'"
        "unat (index (nodes st' h)) \<le> k" "lowered (buff st) (buff st') h"
      unfolding k_def by auto
    have "heap_ord st'" if "heap_ord st"
    proof (rule st'(4))
      have "ordered ?ks"
        using that by (simp add: heap_ord_ordered)
      then show "ord_up (map (\<lambda>a. next_tp (nodes ?st1 a)) (buff ?st1)) k"
        unfolding ks1 using k less_imp_le [OF earlier] old by (intro ord_up_update) simp_all
    qed
    then show ?thesis
      using run st'(1,2,5,6) sifted_moved [OF st'(3)] earlier order.asym [OF earlier]
      by (auto simp: k_def)
  next
    case same
    have "update_place st h tp = Some (Inr st)"
      unfolding same by (simp add: update_place_def Let_def set_next_tp_same)
    moreover have "moved h tp st st"
      unfolding same by (rule moved_same)
    ultimately show ?thesis
      using s raised_refl lowered_refl by simp
  qed
qed

subsection \<open>The slot invariant, read from the nodes\<close>

text \<open>
  \<open>slot_inv\<close> goes through the slots; read from the nodes it says that the vector
  stores each node once and that the slot a stored node names holds that node.
\<close>

lemma slot_inv_iff:
  "slot_inv st \<longleftrightarrow>
     distinct (buff st) \<and>
     (\<forall>v \<in> set (buff st). unat (index (nodes st v)) < length (buff st) \<and>
        buff st ! unat (index (nodes st v)) = v)"
proof
  assume s: "slot_inv st"
  have "distinct (buff st)"
    unfolding distinct_conv_nth using slot_inv_distinct [OF s] by blast
  then show "distinct (buff st) \<and>
     (\<forall>v \<in> set (buff st). unat (index (nodes st v)) < length (buff st) \<and>
        buff st ! unat (index (nodes st v)) = v)"
    using slot_inv_index [OF s] by blast
next
  assume a: "distinct (buff st) \<and>
     (\<forall>v \<in> set (buff st). unat (index (nodes st v)) < length (buff st) \<and>
        buff st ! unat (index (nodes st v)) = v)"
  show "slot_inv st"
    unfolding slot_inv_def
  proof (intro allI impI)
    fix i assume i: "i < length (buff st)"
    let ?k = "unat (index (nodes st (buff st ! i)))"
    have "buff st ! i \<in> set (buff st)"
      using i by simp
    then have k: "?k < length (buff st)" "buff st ! ?k = buff st ! i"
      using a by blast+
    have "distinct (buff st)"
      using a by blast
    then show "?k = i"
      using k i nth_eq_iff_index_eq [of "buff st" ?k i] by blast
  qed
qed

subsection \<open>The millisecond interface and null handles\<close>

lemma unat_ucast_32_64: "unat (ucast (ms :: 32 word) :: 64 word) = unat ms"
proof -
  have "unat ms < 2 ^ 32"
    using unsigned_less [of ms] by simp
  then have "unat ms < 2 ^ 64"
    by simp
  then show ?thesis
    by (simp add: unsigned_ucast_eq take_bit_nat_eq_self)
qed

lemma ms_to_ns_unat: "unat (1000 * 1000 * (ucast (ms :: 32 word) :: 64 word)) = unat ms * 1000000"
proof -
  have b: "unat ms < 2 ^ 32"
    using unsigned_less [of ms] by simp
  have "unat (1000000 * (ucast ms :: 64 word)) = (1000000 * unat ms) mod 2 ^ 64"
    by (simp add: unat_word_ariths unat_ucast_32_64)
  also have "\<dots> = 1000000 * unat ms"
    using b by simp
  finally show ?thesis by (simp add: mult.commute)
qed

lemma ns_to_ms: "ucast ((1000 * 1000 * (ucast (ms :: 32 word) :: 64 word)) div 1000 div 1000) = ms"
proof -
  let ?x = "1000 * 1000 * (ucast ms :: 64 word)"
  have "unat (?x div 1000 div 1000) = unat ms"
    by (simp only: unat_div ms_to_ns_unat) simp
  then have "?x div 1000 div 1000 = ucast ms"
    by (metis of_nat_unat ucast_id)
  then show ?thesis
    by (simp add: ucast_up_ucast_id is_up)
qed


lemma add_timer_node:
  assumes "add_timer st nm f interval_ms delay_ms = (r, st')"
  shows "r = Some (fresh st) \<and>
         nodes st' (fresh st) =
           \<lparr>name = nm, func = f, index = of_nat (length (buff st)),
            interval_ns = 1000 * 1000 * ucast interval_ms,
            delay_ns = 1000 * 1000 * ucast delay_ms, next_tp = kMaxTimePoint,
            running = False\<rparr> \<and>
         buff st' = buff st @ [fresh st] \<and> fresh st' = Suc (fresh st) \<and>
         (\<forall>a. a \<noteq> fresh st \<longrightarrow> nodes st' a = nodes st a)"
  using assms
  by (auto simp: add_timer_def make_shared_def push_def new_TimerNode_def Let_def)


text \<open>
  Claim C7. On a null handle \<^verbatim>\<open>start\<close>, \<^verbatim>\<open>stop\<close> and \<^verbatim>\<open>set_interval\<close> return 0 and
  leave the heap and every node as they were, also through the \<^verbatim>\<open>Timer\<close> wrappers.
\<close>

theorem null_handle_noop:
  "start st None now = Some (Inr (0, st)) \<and>
   stop st None = Some (Inr (0, st)) \<and>
   set_interval st None ms now = Some (Inr (0, st)) \<and>
   Timer_start st \<lparr>handler = None\<rparr> now = Some (Inr (0, st)) \<and>
   Timer_stop st \<lparr>handler = None\<rparr> = Some (Inr (0, st)) \<and>
   Timer_set_interval st \<lparr>handler = None\<rparr> ms now = Some (Inr (0, st))"
  by (simp add: start_def stop_def set_interval_def Timer_start_def Timer_stop_def
      Timer_set_interval_def)

lemma one_timer_eq:
  "one_timer = (\<lparr>handler = Some 0\<rparr>,
     \<lparr>buff = [0],
      nodes = (\<lambda>_. new_TimerNode)(0 := new_TimerNode\<lparr>name := ''t'', interval_ns := 1000000000\<rparr>),
      fresh = 1\<rparr>)"
  by (simp add: one_timer_def Timer_new_def add_timer_def make_shared_def push_def init_state_def Let_def new_TimerNode_def)

subsection \<open>Insertion and sequences of operations\<close>

lemma push_correct:
  assumes s: "slot_inv st" and h: "h \<notin> set (buff st)" and n: "length (buff st) + 1 < 2 ^ 31"
  shows "slot_inv (push st h)" and "buff (push st h) = buff st @ [h]"
    and "fresh (push st h) = fresh st"
    and "index (nodes (push st h) h) = of_nat (length (buff st))"
    and "\<And>a. nodes (push st h) a = (nodes st a)\<lparr>index := index (nodes (push st h) a)\<rparr>"
proof -
  have u: "unat (of_nat (length (buff st)) :: 32 word) = length (buff st)"
    using n by (intro unat_of_nat32) simp
  show "slot_inv (push st h)"
    unfolding slot_inv_def
  proof (intro allI impI)
    fix i assume "i < length (buff (push st h))"
    then have i: "i \<le> length (buff st)"
      by (simp add: push_def Let_def)
    show "unat (index (nodes (push st h) (buff (push st h) ! i))) = i"
    proof (cases "i = length (buff st)")
      case True
      then show ?thesis
        using u by (simp add: push_def Let_def)
    next
      case False
      then have il: "i < length (buff st)"
        using i by simp
      then have "buff st ! i \<noteq> h"
        using h by auto
      then show ?thesis
        using il s by (simp add: push_def Let_def nth_append slot_inv_def)
    qed
  qed
  show "buff (push st h) = buff st @ [h]" "fresh (push st h) = fresh st"
    "index (nodes (push st h) h) = of_nat (length (buff st))"
    by (simp_all add: push_def Let_def)
  show "nodes (push st h) a = (nodes st a)\<lparr>index := index (nodes (push st h) a)\<rparr>" for a
    by (simp add: push_def Let_def)
qed

lemma push_and_sort_correct:
  assumes s: "slot_inv st" and h: "h \<notin> set (buff st)" and n: "length (buff st) + 1 < 2 ^ 31"
  shows "\<exists>st'. push_and_sort st h = Inr st' \<and> slot_inv st' \<and>
           mset (buff st') = add_mset h (mset (buff st)) \<and> fresh st' = fresh st \<and>
           (\<forall>a. nodes st' a = (nodes st a)\<lparr>index := index (nodes st' a)\<rparr>) \<and>
           (heap_ord st \<longrightarrow> heap_ord st')"
proof -
  let ?st1 = "push st h"
  let ?pos = "of_nat (length (buff st)) :: 32 word"
  note p = push_correct [OF s h n]
  have u: "unat ?pos = length (buff st)"
    using n by (intro unat_of_nat32) simp
  have l1: "length (buff ?st1) < 2 ^ 31" "unat ?pos < length (buff ?st1)"
    using n u by (simp_all add: p(2))
  from percolate_up_correct [OF l1(1) p(1) l1(2)] obtain st' where
    st': "percolate_up ?st1 ?pos = Inr st'" "slot_inv st'" "sifted ?st1 st'"
      "ord_up (map (\<lambda>a. next_tp (nodes ?st1 a)) (buff ?st1)) (unat ?pos) \<Longrightarrow> heap_ord st'"
    by blast
  have run: "push_and_sort st h = Inr st'"
    using st'(1) by (simp add: push_and_sort_def Let_def p(4))
  have k: "next_tp (nodes ?st1 a) = next_tp (nodes st a)" for a
    by (subst p(5)) simp
  have fr: "nodes st' a = (nodes st a)\<lparr>index := index (nodes st' a)\<rparr>" for a
  proof -
    have 1: "nodes st' a = (nodes ?st1 a)\<lparr>index := index (nodes st' a)\<rparr>"
      using st'(3) by (simp add: sifted_def)
    show ?thesis
      by (subst 1, subst p(5)) simp
  qed
  have "heap_ord st'" if "heap_ord st"
  proof (rule st'(4))
    have "ordered (map (\<lambda>a. next_tp (nodes st a)) (buff st))"
      using that by (simp add: heap_ord_ordered)
    then have "ord_up (map (\<lambda>a. next_tp (nodes st a)) (buff st) @ [next_tp (nodes st h)])
                 (length (map (\<lambda>a. next_tp (nodes st a)) (buff st)))"
      by (rule ord_up_snoc)
    then show "ord_up (map (\<lambda>a. next_tp (nodes ?st1 a)) (buff ?st1)) (unat ?pos)"
      by (simp add: k p(2) u)
  qed
  moreover have "mset (buff st') = add_mset h (mset (buff st))" "fresh st' = fresh st"
    using st'(3) by (simp_all add: sifted_def p(2,3))
  ultimately show ?thesis
    using run st'(2) fr by simp
qed

lemma heap_top_min:
  assumes "heap_ord st" and "buff st \<noteq> []"
  shows "heap_top st = Inr (buff st ! 0)"
    and "\<And>a. a \<in> set (buff st) \<Longrightarrow> next_tp (nodes st (buff st ! 0)) \<le> next_tp (nodes st a)"
proof -
  show "heap_top st = Inr (buff st ! 0)"
    using assms by (simp add: heap_top_def heap_at_def)
  fix a assume "a \<in> set (buff st)"
  then obtain i where i: "i < length (buff st)" "buff st ! i = a"
    by (auto simp: in_set_conv_nth)
  let ?ks = "map (\<lambda>a. next_tp (nodes st a)) (buff st)"
  have "?ks ! 0 \<le> ?ks ! i"
    using assms i by (intro ordered_root_min) (simp_all add: heap_ord_ordered)
  then show "next_tp (nodes st (buff st ! 0)) \<le> next_tp (nodes st a)"
    using i assms by simp
qed

lemma apply_ops_inv:
  assumes "slot_inv st" and "heap_ord st" and "ops_ok (set (buff st)) ops"
    and "length (buff st) + length ops < 2 ^ 31"
  shows "\<exists>st'. apply_ops st ops = Some (Inr st') \<and> slot_inv st' \<and> heap_ord st' \<and>
           set (buff st') = set (buff st) \<union> inserted ops"
  using assms
proof (induction ops arbitrary: st)
  case Nil
  then show ?case by simp
next
  case (Cons x xs)
  show ?case
  proof (cases x)
    case (Insert h)
    have h: "h \<notin> set (buff st)" "ops_ok (insert h (set (buff st))) xs"
      using Cons.prems(3) Insert by simp_all
    have n: "length (buff st) + 1 < 2 ^ 31"
      using Cons.prems(4) by simp
    from push_and_sort_correct [OF Cons.prems(1) h(1) n] Cons.prems(2) obtain st1 where
      st1: "push_and_sort st h = Inr st1" "slot_inv st1" "heap_ord st1"
        "mset (buff st1) = add_mset h (mset (buff st))"
      by blast
    have set1: "set (buff st1) = insert h (set (buff st))"
      using st1(4) by (metis set_mset_add_mset_insert set_mset_mset)
    have len1: "length (buff st1) = length (buff st) + 1"
      using st1(4) by (metis size_mset size_add_mset Suc_eq_plus1)
    have "ops_ok (set (buff st1)) xs" "length (buff st1) + length xs < 2 ^ 31"
      using h(2) set1 len1 Cons.prems(4) by simp_all
    from Cons.IH [OF st1(2,3) this] obtain st' where
      "apply_ops st1 xs = Some (Inr st')" "slot_inv st'" "heap_ord st'"
      "set (buff st') = set (buff st1) \<union> inserted xs"
      by blast
    then show ?thesis
      using Insert st1(1) set1 by simp
  next
    case (Reposition h tp)
    have h: "h \<in> set (buff st)" "ops_ok (set (buff st)) xs"
      using Cons.prems(3) Reposition by simp_all
    have n: "length (buff st) < 2 ^ 31"
      using Cons.prems(4) by simp
    from update_place_correct [OF n Cons.prems(1) h(1), of tp] Cons.prems(2) obtain st1 where
      st1: "update_place st h tp = Some (Inr st1)" "slot_inv st1" "heap_ord st1"
        "moved h tp st st1"
      by blast
    have set1: "set (buff st1) = set (buff st)"
      using st1(4) unfolding moved_def by (metis set_mset_mset)
    have len1: "length (buff st1) = length (buff st)"
      using st1(4) unfolding moved_def by (metis size_mset)
    have "ops_ok (set (buff st1)) xs" "length (buff st1) + length xs < 2 ^ 31"
      using h(2) set1 len1 Cons.prems(4) by simp_all
    from Cons.IH [OF st1(2,3) this] obtain st' where
      "apply_ops st1 xs = Some (Inr st')" "slot_inv st'" "heap_ord st'"
      "set (buff st') = set (buff st1) \<union> inserted xs"
      by blast
    then show ?thesis
      using Reposition st1(1) set1 by simp
  qed
qed

text \<open>
  Claim C3. Starting from the empty heap, after any sequence of insertions of new nodes
  and repositionings of nodes in the heap (fewer than \<open>2^31\<close> operations), every
  operation has returned, the heap holds exactly the inserted nodes, and \<^verbatim>\<open>top()\<close> is
  a node whose \<open>next_tp\<close> is least among them.
\<close>

theorem peek_root_is_minimum:
  assumes "buff st0 = []" and "ops_ok {} ops" and "length ops < 2 ^ 31"
  shows "\<exists>st. apply_ops st0 ops = Some (Inr st) \<and> set (buff st) = inserted ops \<and>
           (inserted ops \<noteq> {} \<longrightarrow>
              (\<exists>r. heap_top st = Inr r \<and> r \<in> inserted ops \<and>
                 (\<forall>a \<in> inserted ops. next_tp (nodes st r) \<le> next_tp (nodes st a))))"
proof -
  have "slot_inv st0" "heap_ord st0"
    using assms(1) by (simp_all add: slot_inv_def heap_ord_def)
  moreover have "ops_ok (set (buff st0)) ops" "length (buff st0) + length ops < 2 ^ 31"
    using assms by simp_all
  ultimately obtain st where
    st: "apply_ops st0 ops = Some (Inr st)" "heap_ord st" "set (buff st) = inserted ops"
    using apply_ops_inv [of st0 ops] assms(1) by auto
  have "\<exists>r. heap_top st = Inr r \<and> r \<in> inserted ops \<and>
          (\<forall>a \<in> inserted ops. next_tp (nodes st r) \<le> next_tp (nodes st a))"
    if "inserted ops \<noteq> {}"
  proof -
    have ne: "buff st \<noteq> []"
      using that st(3) by auto
    then have "buff st ! 0 \<in> set (buff st)"
      by simp
    then show ?thesis
      using heap_top_min [OF st(2) ne] st(3) by auto
  qed
  then show ?thesis
    using st by blast
qed

subsection \<open>Slot invariant, heap order and reposition: the claims\<close>

lemmas eval_defs = push_and_sort_def push_def percolate_up_def heap_at_def heap_top_def settle_def
  less_handler_def move_to_def new_TimerNode_def percolate_up_loop.simps Let_def
  update_place_def update_top_def percolate_down_def percolate_down_loop.simps find_min_child_def
  set_next_tp_def heap_empty_def

lemma slot_inv_two_timers: "slot_inv two_timers"
  unfolding slot_inv_def
proof (intro allI impI)
  fix i :: nat assume "i < length (buff two_timers)"
  then have "i = 0 \<or> i = 1"
    by (auto simp: two_timers_def)
  then show "unat (index (nodes two_timers (buff two_timers ! i))) = i"
    by (auto simp: two_timers_def)
qed

lemma heap_ord_two_timers: "heap_ord two_timers"
  unfolding heap_ord_def
proof (intro allI impI)
  fix i :: nat assume "i < length (buff two_timers)" "0 < i"
  then have "i = 1"
    by (simp add: two_timers_def)
  then show "next_tp (nodes two_timers (buff two_timers ! ((i - 1) div 2)))
               \<le> next_tp (nodes two_timers (buff two_timers ! i))"
    by (simp add: two_timers_def)
qed

lemma moved_fields:
  assumes "moved h tp st st'"
  shows "next_tp (nodes st' a) = (if a = h then tp else next_tp (nodes st a))"
    and "name (nodes st' a) = name (nodes st a)"
    and "func (nodes st' a) = func (nodes st a)"
    and "interval_ns (nodes st' a) = interval_ns (nodes st a)"
    and "delay_ns (nodes st' a) = delay_ns (nodes st a)"
    and "running (nodes st' a) = running (nodes st a)"
    and "set (buff st') = set (buff st)"
    and "length (buff st') = length (buff st)"
proof -
  have 1: "nodes st' a = (nodes st a)\<lparr>index := index (nodes st' a),
             next_tp := (if a = h then tp else next_tp (nodes st a))\<rparr>"
    using assms by (simp add: moved_def)
  show "next_tp (nodes st' a) = (if a = h then tp else next_tp (nodes st a))"
    by (subst 1) simp
  show "name (nodes st' a) = name (nodes st a)"
    by (subst 1) simp
  show "func (nodes st' a) = func (nodes st a)"
    by (subst 1) simp
  show "interval_ns (nodes st' a) = interval_ns (nodes st a)"
    by (subst 1) simp
  show "delay_ns (nodes st' a) = delay_ns (nodes st a)"
    by (subst 1) simp
  show "running (nodes st' a) = running (nodes st a)"
    by (subst 1) simp
  have m: "mset (buff st') = mset (buff st)"
    using assms by (simp add: moved_def)
  show "set (buff st') = set (buff st)"
    using m by (metis set_mset_mset)
  show "length (buff st') = length (buff st)"
    using m by (metis size_mset)
qed

text \<open>
  Witness for C3: the six insertions 1000, 2000, 1500, 1300, 3000, 100 of the test
  program; after each of them the root carries the running minimum.
\<close>

theorem peek_root_is_minimum_witness:
  "buff six_nodes = [] \<and> ops_ok {} (map Insert [0, 1, 2, 3, 4, 5]) \<and>
   length (map Insert [0, 1, 2, 3, 4, 5]) < (2 :: nat) ^ 31 \<and>
   (\<exists>st. apply_ops six_nodes (map Insert [0, 1, 2, 3, 4, 5]) = Some (Inr st) \<and>
      set (buff st) = {0, 1, 2, 3, 4, 5} \<and>
      (\<exists>r. heap_top st = Inr r \<and>
         (\<forall>a \<in> {0, 1, 2, 3, 4, 5}. next_tp (nodes st r) \<le> next_tp (nodes st a)))) \<and>
   map (\<lambda>k. root_after six_nodes (map Insert (take k [0, 1, 2, 3, 4, 5]))) [1, 2, 3, 4, 5, 6]
     = map Some [1000, 1000, 1000, 1000, 1000, 100]"
proof -
  have h: "buff six_nodes = []" "ops_ok {} (map Insert [0, 1, 2, 3, 4, 5])"
    "length (map Insert [0, 1, 2, 3, 4, 5]) < (2 :: nat) ^ 31"
    by (simp_all add: six_nodes_def)
  have i: "inserted (map Insert [0, 1, 2, 3, 4, 5]) = {0, 1, 2, 3, 4, 5}"
    by auto
  have "map (\<lambda>k. root_after six_nodes (map Insert (take k [0, 1, 2, 3, 4, 5]))) [1, 2, 3, 4, 5, 6]
     = map Some [1000, 1000, 1000, 1000, 1000, 100]"
    by (simp add: root_after_def six_nodes_def eval_defs)
  then show ?thesis
    using h peek_root_is_minimum [OF h] unfolding i by blast
qed

text \<open>
  Claim C2. On a heap of fewer than \<open>2^31 - 1\<close> nodes in which every node sits in
  the slot its \<open>index\<close> names, each mutation returns and leaves the heap in that
  condition: \<^verbatim>\<open>push\<close> and \<^verbatim>\<open>push_and_sort\<close> of a node not yet in the heap,
  \<^verbatim>\<open>update_top\<close> on a non-empty heap, \<^verbatim>\<open>update_place\<close> of a node of the heap, and
  the two sifts from any occupied slot.
\<close>

theorem slot_invariant_preserved:
  assumes "slot_inv st" and "length (buff st) + 1 < 2 ^ 31"
  shows "(h \<notin> set (buff st) \<longrightarrow>
            slot_inv (push st h) \<and> (\<exists>st'. push_and_sort st h = Inr st' \<and> slot_inv st')) \<and>
         (buff st \<noteq> [] \<longrightarrow> (\<exists>st'. update_top st tp = Some (Inr st') \<and> slot_inv st')) \<and>
         (g \<in> set (buff st) \<longrightarrow> (\<exists>st'. update_place st g tp = Some (Inr st') \<and> slot_inv st')) \<and>
         (unat pos < length (buff st) \<longrightarrow>
            (\<exists>st'. percolate_up st pos = Inr st' \<and> slot_inv st') \<and>
            (\<exists>st'. percolate_down st pos = Some (Inr st') \<and> slot_inv st'))"
proof -
  have n: "length (buff st) < 2 ^ 31"
    using assms(2) by simp
  have "slot_inv (push st h) \<and> (\<exists>st'. push_and_sort st h = Inr st' \<and> slot_inv st')"
    if "h \<notin> set (buff st)"
    using push_correct(1) [OF assms(1) that assms(2)]
      push_and_sort_correct [OF assms(1) that assms(2)] by blast
  moreover have "\<exists>st'. update_top st tp = Some (Inr st') \<and> slot_inv st'" if "buff st \<noteq> []"
    using update_top_correct [OF n assms(1) that] by blast
  moreover have "\<exists>st'. update_place st g tp = Some (Inr st') \<and> slot_inv st'"
    if "g \<in> set (buff st)"
    using update_place_correct [OF n assms(1) that] by blast
  moreover have "(\<exists>st'. percolate_up st pos = Inr st' \<and> slot_inv st') \<and>
            (\<exists>st'. percolate_down st pos = Some (Inr st') \<and> slot_inv st')"
    if "unat pos < length (buff st)"
    using percolate_up_correct [OF n assms(1) that] percolate_down_correct [OF n assms(1) that]
    by blast
  ultimately show ?thesis
    by blast
qed

text \<open>Witness for C2, on the two-timer heap.\<close>

theorem slot_invariant_preserved_witness:
  "slot_inv two_timers \<and> length (buff two_timers) + 1 < 2 ^ 31 \<and>
   2 \<notin> set (buff two_timers) \<and> buff two_timers \<noteq> [] \<and> 0 \<in> set (buff two_timers) \<and>
   unat (1 :: 32 word) < length (buff two_timers) \<and>
   slot_inv (push two_timers 2) \<and>
   (\<exists>st'. push_and_sort two_timers 2 = Inr st' \<and> slot_inv st') \<and>
   (\<exists>st'. update_top two_timers 30 = Some (Inr st') \<and> slot_inv st') \<and>
   (\<exists>st'. update_place two_timers 0 30 = Some (Inr st') \<and> slot_inv st') \<and>
   (\<exists>st'. percolate_up two_timers 1 = Inr st' \<and> slot_inv st') \<and>
   (\<exists>st'. percolate_down two_timers 1 = Some (Inr st') \<and> slot_inv st')"
proof -
  have h: "length (buff two_timers) + 1 < 2 ^ 31" "2 \<notin> set (buff two_timers)"
    "buff two_timers \<noteq> []" "0 \<in> set (buff two_timers)"
    "unat (1 :: 32 word) < length (buff two_timers)"
    by (simp_all add: two_timers_def)
  show ?thesis
    using slot_invariant_preserved [OF slot_inv_two_timers h(1), of 2 30 0 1]
      slot_inv_two_timers h by blast
qed

text \<open>
  Claim C5. For a node of the heap, \<^verbatim>\<open>update_place\<close> with a strictly later deadline
  is the sift-down of that node and nothing else, its slot never decreasing; with a
  strictly earlier deadline it is the sift-up, its slot never increasing; with the same
  deadline the state is returned as it was. In the first two cases the node ends with
  the new deadline.
\<close>

theorem update_place_reposition:
  assumes "slot_inv st" and "length (buff st) < 2 ^ 31" and "h \<in> set (buff st)"
  shows "(next_tp (nodes st h) < later \<longrightarrow>
            update_place st h later
              = percolate_down (set_next_tp st h later) (index (nodes st h)) \<and>
            (\<exists>st'. update_place st h later = Some (Inr st') \<and> next_tp (nodes st' h) = later \<and>
               unat (index (nodes st h)) \<le> unat (index (nodes st' h)))) \<and>
         (earlier < next_tp (nodes st h) \<longrightarrow>
            update_place st h earlier
              = Some (percolate_up (set_next_tp st h earlier) (index (nodes st h))) \<and>
            (\<exists>st'. update_place st h earlier = Some (Inr st') \<and> next_tp (nodes st' h) = earlier \<and>
               unat (index (nodes st' h)) \<le> unat (index (nodes st h)))) \<and>
         update_place st h (next_tp (nodes st h)) = Some (Inr st)"
proof -
  have ix: "index (nodes (set_next_tp st h tp) h) = index (nodes st h)" for tp
    by (simp add: set_next_tp_def)
  have a: "update_place st h later
              = percolate_down (set_next_tp st h later) (index (nodes st h)) \<and>
            (\<exists>st'. update_place st h later = Some (Inr st') \<and> next_tp (nodes st' h) = later \<and>
               unat (index (nodes st h)) \<le> unat (index (nodes st' h)))"
    if l: "next_tp (nodes st h) < later"
  proof -
    from update_place_correct [OF assms(2,1,3), of later] l obtain st' where
      "update_place st h later = Some (Inr st')" "moved h later st st'"
      "unat (index (nodes st h)) \<le> unat (index (nodes st' h))"
      by blast
    moreover from this have "next_tp (nodes st' h) = later"
      by (simp add: moved_fields(1))
    moreover have "update_place st h later
              = percolate_down (set_next_tp st h later) (index (nodes st h))"
      using l by (simp add: update_place_def Let_def ix)
    ultimately show ?thesis
      by blast
  qed
  have b: "update_place st h earlier
              = Some (percolate_up (set_next_tp st h earlier) (index (nodes st h))) \<and>
            (\<exists>st'. update_place st h earlier = Some (Inr st') \<and> next_tp (nodes st' h) = earlier \<and>
               unat (index (nodes st' h)) \<le> unat (index (nodes st h)))"
    if l: "earlier < next_tp (nodes st h)"
  proof -
    from update_place_correct [OF assms(2,1,3), of earlier] l obtain st' where
      "update_place st h earlier = Some (Inr st')" "moved h earlier st st'"
      "unat (index (nodes st' h)) \<le> unat (index (nodes st h))"
      by blast
    moreover from this have "next_tp (nodes st' h) = earlier"
      by (simp add: moved_fields(1))
    moreover have "\<not> next_tp (nodes st h) < earlier"
      using l by simp
    then have "update_place st h earlier
              = Some (percolate_up (set_next_tp st h earlier) (index (nodes st h)))"
      using l by (simp add: update_place_def Let_def ix)
    ultimately show ?thesis
      by blast
  qed
  have "update_place st h (next_tp (nodes st h)) = Some (Inr st)"
    by (simp add: update_place_def Let_def set_next_tp_same)
  then show ?thesis
    using a b by blast
qed

text \<open>Witness for C5, moving node 0 of the two-timer heap from 10 to 30 and to 5.\<close>

theorem update_place_reposition_witness:
  "slot_inv two_timers \<and> length (buff two_timers) < 2 ^ 31 \<and> 0 \<in> set (buff two_timers) \<and>
   next_tp (nodes two_timers 0) < 30 \<and> 5 < next_tp (nodes two_timers 0) \<and>
   update_place two_timers 0 30
     = percolate_down (set_next_tp two_timers 0 30) (index (nodes two_timers 0)) \<and>
   (\<exists>st'. update_place two_timers 0 30 = Some (Inr st') \<and> next_tp (nodes st' 0) = 30 \<and>
      unat (index (nodes two_timers 0)) \<le> unat (index (nodes st' 0))) \<and>
   update_place two_timers 0 5
     = Some (percolate_up (set_next_tp two_timers 0 5) (index (nodes two_timers 0))) \<and>
   (\<exists>st'. update_place two_timers 0 5 = Some (Inr st') \<and> next_tp (nodes st' 0) = 5 \<and>
      unat (index (nodes st' 0)) \<le> unat (index (nodes two_timers 0))) \<and>
   update_place two_timers 0 (next_tp (nodes two_timers 0)) = Some (Inr two_timers)"
proof -
  have h: "length (buff two_timers) < 2 ^ 31" "0 \<in> set (buff two_timers)"
    "next_tp (nodes two_timers 0) < 30" "5 < next_tp (nodes two_timers 0)"
    by (simp_all add: two_timers_def)
  show ?thesis
    using update_place_reposition [OF slot_inv_two_timers h(1,2), of 30 5]
      slot_inv_two_timers h by blast
qed

text \<open>
  Claim C4. On a handle whose node is in the heap, \<^verbatim>\<open>set_interval(ms)\<close> returns 0 and
  afterwards \<^verbatim>\<open>interval()\<close> returns \<open>ms\<close>; the node stores \<open>ms * 1000000\<close>
  nanoseconds, the exact product, for every 32-bit \<open>ms\<close>.
\<close>

theorem set_interval_round_trip:
  assumes "slot_inv st" and "length (buff st) < 2 ^ 31"
    and "handler t = Some h" and "h \<in> set (buff st)"
  shows "\<exists>st'. Timer_set_interval st t ms now = Some (Inr (0, st')) \<and>
           Timer_interval st' t = Inr ms \<and>
           unat (interval_ns (nodes st' h)) = unat ms * 1000000"
proof -
  let ?st1 = "st\<lparr>nodes := (nodes st)(h := (nodes st h)
                \<lparr>interval_ns := 1000 * 1000 * ucast ms\<rparr>)\<rparr>"
  let ?tp = "now + interval_ns (nodes ?st1 h)"
  have b: "buff ?st1 = buff st"
    by simp
  have "index (nodes ?st1 a) = index (nodes st a)" for a
    by simp
  then have s1: "slot_inv ?st1"
    using assms(1) unfolding slot_inv_def b by simp
  have n1: "length (buff ?st1) < 2 ^ 31" and h1: "h \<in> set (buff ?st1)"
    using assms(2,4) by simp_all
  from update_place_correct [OF n1 s1 h1, of ?tp] obtain st' where
    st': "update_place ?st1 h ?tp = Some (Inr st')" "moved h ?tp ?st1 st'"
    by blast
  have run: "Timer_set_interval st t ms now = Some (Inr (0, st'))"
    using assms(3) st'(1)
    by (simp add: Timer_set_interval_def set_interval_def Let_def lift_int_def)
  have i: "interval_ns (nodes st' h) = 1000 * 1000 * ucast ms"
    using moved_fields(4) [OF st'(2), of h] by simp
  have "Timer_interval st' t = Inr ms"
    using assms(3) by (simp only: Timer_interval_def i ns_to_ms option.case)
  moreover have "unat (interval_ns (nodes st' h)) = unat ms * 1000000"
    by (simp only: i ms_to_ns_unat)
  ultimately show ?thesis
    using run by blast
qed

lemma slot_inv_one_timer: "slot_inv (snd one_timer)"
  by (simp add: one_timer_eq slot_inv_def new_TimerNode_def)

text \<open>
  Witness for C4: on the timer registered with 1000 ms, \<^verbatim>\<open>set_interval(5000)\<close> and then
  \<^verbatim>\<open>interval()\<close> give 5000, and \<open>5 * 10^9\<close> nanoseconds are stored.
\<close>

theorem set_interval_round_trip_witness:
  "slot_inv (snd one_timer) \<and> length (buff (snd one_timer)) < 2 ^ 31 \<and>
   handler (fst one_timer) = Some 0 \<and> 0 \<in> set (buff (snd one_timer)) \<and>
   (\<exists>st'. Timer_set_interval (snd one_timer) (fst one_timer) 5000 0 = Some (Inr (0, st')) \<and>
      Timer_interval st' (fst one_timer) = Inr 5000 \<and>
      unat (interval_ns (nodes st' 0)) = 5000000000)"
proof -
  have h: "length (buff (snd one_timer)) < 2 ^ 31" "handler (fst one_timer) = Some 0"
    "0 \<in> set (buff (snd one_timer))"
    by (simp_all add: one_timer_eq)
  show ?thesis
    using set_interval_round_trip [OF slot_inv_one_timer h, of 5000 0] slot_inv_one_timer h
    by simp
qed

subsection \<open>No exception leaves the scheduler round\<close>

lemma find_min_child_range:
  "find_min_child st pos = pos \<or> unat (find_min_child st pos) < length (buff st)"
  by (simp add: find_min_child_def Let_def)

lemma percolate_down_loop_no_throw:
  assumes "percolate_down_loop tmp st wp ci = Some y"
  shows "in_range st wp ci \<longrightarrow>
         (\<exists>st' wp'. y = Inr (st', wp') \<and> unat (wp' - 1) < length (buff st'))"
proof (rule percolate_down_loop.raw_induct
    [where P = "\<lambda>tmp st wp ci y. in_range st wp ci \<longrightarrow>
         (\<exists>st' wp'. y = Inr (st', wp') \<and> unat (wp' - 1) < length (buff st'))", OF _ assms])
  fix loop :: "addr \<Rightarrow> state \<Rightarrow> 32 word \<Rightarrow> 32 word \<Rightarrow> (error + (state \<times> 32 word)) option"
  fix tmp st wp ci y
  assume IH: "\<And>tmp st wp ci y. loop tmp st wp ci = Some y \<Longrightarrow> in_range st wp ci \<longrightarrow>
         (\<exists>st' wp'. y = Inr (st', wp') \<and> unat (wp' - 1) < length (buff st'))"
  assume body: "(if ci \<noteq> wp - 1 then
        (case heap_at st (unat ci) of
           Inl e \<Rightarrow> Some (Inl e)
         | Inr c \<Rightarrow>
             if less_handler st c tmp then
               (case heap_at st (unat (wp - 1)) of
                  Inl e \<Rightarrow> Some (Inl e)
                | Inr _ \<Rightarrow>
                    loop tmp (move_to st (wp - 1) c) (ci + 1)
                      (find_min_child (move_to st (wp - 1) c) ci))
             else Some (Inr (st, wp)))
      else Some (Inr (st, wp))) = Some y"
  show "in_range st wp ci \<longrightarrow>
         (\<exists>st' wp'. y = Inr (st', wp') \<and> unat (wp' - 1) < length (buff st'))"
  proof
    assume a: "in_range st wp ci"
    show "\<exists>st' wp'. y = Inr (st', wp') \<and> unat (wp' - 1) < length (buff st')"
    proof (cases "ci \<noteq> wp - 1 \<and> less_handler st (buff st ! unat ci) tmp")
      case True
      let ?st2 = "move_to st (wp - 1) (buff st ! unat ci)"
      have c: "unat ci < length (buff st)" "unat (wp - 1) < length (buff st)"
        using a True unfolding in_range_def by blast+
      have "loop tmp ?st2 (ci + 1) (find_min_child ?st2 ci) = Some y"
        using body True c by (simp add: heap_at_def)
      moreover have "in_range ?st2 (ci + 1) (find_min_child ?st2 ci)"
        using c find_min_child_range [of ?st2 ci] by (simp add: in_range_def)
      ultimately show ?thesis
        using IH by blast
    next
      case False
      then have "y = Inr (st, wp)"
        using body a by (auto simp: heap_at_def in_range_def split: if_splits)
      then show ?thesis
        using a by (simp add: in_range_def)
    qed
  qed
qed

lemma settle_no_throw:
  assumes "unat (wp - 1) < length (buff st)"
  shows "\<exists>st'. settle tmp pos (st, wp) = Inr st'"
  using assms by (simp add: settle_def heap_at_def Let_def)

lemma percolate_down_no_throw:
  assumes "percolate_down st pos = Some r" and "unat pos < length (buff st)"
  shows "\<exists>st'. r = Inr st'"
proof -
  let ?tmp = "buff st ! unat pos"
  let ?loop = "percolate_down_loop ?tmp st (pos + 1) (find_min_child st pos)"
  have at: "heap_at st (unat pos) = Inr ?tmp"
    using assms(2) by (simp add: heap_at_def)
  have ir: "in_range st (pos + 1) (find_min_child st pos)"
    using assms(2) find_min_child_range [of st pos] by (simp add: in_range_def)
  show ?thesis
  proof (cases ?loop)
    case None
    then show ?thesis
      using assms(1) by (simp add: percolate_down_def at)
  next
    case (Some y)
    from percolate_down_loop_no_throw [OF Some] ir obtain st1 wp1 where
      y: "y = Inr (st1, wp1)" "unat (wp1 - 1) < length (buff st1)"
      by blast
    have "r = settle ?tmp pos (st1, wp1)"
      using assms(1) by (simp add: percolate_down_def at Some y)
    then show ?thesis
      using settle_no_throw [OF y(2)] by simp
  qed
qed

lemma percolate_down_returns:
  assumes n: "length (buff st) < 2 ^ 31" and p: "unat pos < length (buff st)"
  shows "\<exists>st'. percolate_down st pos = Some (Inr st')"
proof -
  have "pos = of_nat (unat pos)"
    by simp
  then have pos: "pos = of_nat (unat pos)" "pos + 1 = of_nat (unat pos + 1)"
    by simp_all
  from percolate_down_loop_run [OF n p, of "buff st ! unat pos"] obtain st1 h' where
    "percolate_down_loop (buff st ! unat pos) st (pos + 1) (find_min_child st pos)
       = Some (Inr (st1, of_nat (h' + 1)))"
    unfolding pos(2) pos(1) [symmetric] by blast
  then have "\<exists>r. percolate_down st pos = Some r"
    using p by (simp add: percolate_down_def heap_at_def)
  then show ?thesis
    using percolate_down_no_throw [OF _ p] by blast
qed

lemma update_top_no_throw:
  assumes "buff st \<noteq> []"
  shows "update_top st tp \<noteq> Some (Inl e)"
proof
  assume a: "update_top st tp = Some (Inl e)"
  have l: "0 < length (buff st)"
    using assms by simp
  then have "percolate_down (set_next_tp st (buff st ! 0) tp) 0 = Some (Inl e)"
    using a by (simp add: update_top_def heap_at_def)
  from percolate_down_no_throw [OF this] l show False
    by simp
qed

lemma check_task_step_no_throw: "check_task_step st now \<noteq> Some (Inl e)"
proof (cases "buff st = []")
  case True
  then show ?thesis
    by (simp add: check_task_step_def heap_empty_def)
next
  case False
  then have l: "0 < length (buff st)"
    by simp
  show ?thesis
    using False l update_top_no_throw [OF False]
    by (auto simp: check_task_step_def heap_empty_def heap_top_def heap_at_def Let_def
        split: option.splits sum.splits)
qed

lemma check_task_no_throw: "check_task st ts \<noteq> Some (Inl e)"
proof (induction ts arbitrary: st)
  case Nil
  then show ?case by simp
next
  case (Cons t ts)
  show ?case
    using check_task_step_no_throw [of st t] Cons.IH
    by (auto split: option.splits sum.splits round.splits prod.splits)
qed

lemma check_task_step_wait:
  assumes "buff st \<noteq> []" and "\<not> next_tp (nodes st (buff st ! 0)) \<le> now"
  shows "check_task_step st now = Some (Inr (Wait (next_tp (nodes st (buff st ! 0))), st))"
  using assms by (simp add: check_task_step_def heap_empty_def heap_top_def heap_at_def)

lemma check_task_step_due:
  assumes "buff st \<noteq> []" and "next_tp (nodes st (buff st ! 0)) \<le> now"
    and "update_top st (next_deadline st) = Some (Inr st')"
  shows "check_task_step st now =
           Some (Inr (if running (nodes st' (buff st ! 0)) then Busy else Due (buff st ! 0), st'))"
  using assms
  by (simp add: check_task_step_def heap_empty_def heap_top_def heap_at_def Let_def
      next_deadline_def)

text \<open>
  Claim C8. \<^verbatim>\<open>top()\<close> throws exactly on the empty heap. \<^verbatim>\<open>check_task\<close> tests
  \<^verbatim>\<open>empty()\<close> first and then waits for a timer to arrive, so no round and no run of it
  ends in the exception; below \<open>2^31\<close> nodes every round returns a value.
\<close>

theorem empty_heap_error_not_surfaced:
  "(heap_top st = Inl OutOfRange \<longleftrightarrow> heap_empty st) \<and>
   (heap_empty st \<longrightarrow> check_task_step st now = Some (Inr (Wait kMaxTimePoint, st))) \<and>
   check_task_step st now \<noteq> Some (Inl e) \<and>
   check_task st ts \<noteq> Some (Inl e) \<and>
   (length (buff st) < 2 ^ 31 \<longrightarrow> (\<exists>r st'. check_task_step st now = Some (Inr (r, st'))))"
proof -
  have "\<exists>r st'. check_task_step st now = Some (Inr (r, st'))" if n: "length (buff st) < 2 ^ 31"
  proof (cases "buff st = []")
    case True
    then show ?thesis
      by (simp add: check_task_step_def heap_empty_def)
  next
    case False
    then have l: "0 < length (buff st)"
      by simp
    have "\<exists>st'. update_top st tp = Some (Inr st')" for tp
      using percolate_down_returns [of "set_next_tp st (buff st ! 0) tp" 0] n l
      by (simp add: update_top_def heap_at_def)
    then obtain st' where "update_top st (next_deadline st) = Some (Inr st')"
      by blast
    then show ?thesis
      using check_task_step_wait [OF False, of now] check_task_step_due [OF False, of now st']
      by (cases "next_tp (nodes st (buff st ! 0)) \<le> now") simp_all
  qed
  moreover have "heap_top st = Inl OutOfRange \<longleftrightarrow> heap_empty st"
    by (simp add: heap_top_def heap_at_def heap_empty_def)
  moreover have "check_task_step st now = Some (Inr (Wait kMaxTimePoint, st))" if "heap_empty st"
    using that by (simp add: check_task_step_def)
  ultimately show ?thesis
    using check_task_step_no_throw check_task_no_throw by blast
qed

subsection \<open>The round on a due root\<close>



text \<open>What a round on a due root does, in one statement.\<close>

lemma check_task_step_on_due:
  assumes h: "slot_inv st" "length (buff st) < 2 ^ 31" "buff st \<noteq> []"
    "next_tp (nodes st (buff st ! 0)) \<le> now"
  shows "\<exists>st'. check_task_step st now =
             Some (Inr (if running (nodes st (buff st ! 0)) then Busy else Due (buff st ! 0), st')) \<and>
           slot_inv st' \<and> moved (buff st ! 0) (next_deadline st) st st'"
proof -
  from update_top_correct [OF h(2,1,3), of "next_deadline st"] obtain st' where
    st': "update_top st (next_deadline st) = Some (Inr st')" "slot_inv st'"
      "moved (buff st ! 0) (next_deadline st) st st'"
    by blast
  have "running (nodes st' (buff st ! 0)) = running (nodes st (buff st ! 0))"
    using moved_fields(6) [OF st'(3)] .
  then show ?thesis
    using check_task_step_due [OF h(3,4) st'(1)] st'(2,3) by simp
qed

lemma due_only_when_reached:
  assumes "check_task_step st t = Some (Inr (Due h, st'))"
  shows "next_tp (nodes st h) \<le> t"
  using assms
  by (auto simp: check_task_step_def heap_empty_def heap_top_def heap_at_def Let_def
      split: if_splits option.splits sum.splits)



subsection \<open>Single flight and destruction\<close>


text \<open>
  Claim C6. When the root is due and its \<^verbatim>\<open>running\<close> flag is set, the round ends in the
  warning and \<^verbatim>\<open>continue\<close>: nothing is returned and no callback is dispatched; the
  node's deadline has been advanced all the same and its flag is untouched. The firing
  is not kept for later: whatever happens to the flag, the node is returned again only
  by a round whose clock has reached the new deadline.
\<close>

theorem running_task_skipped:
  assumes "slot_inv st" and "length (buff st) < 2 ^ 31" and "buff st \<noteq> []"
    and "next_tp (nodes st (buff st ! 0)) \<le> now" and "running (nodes st (buff st ! 0))"
  shows "\<exists>st'. check_task_step st now = Some (Inr (Busy, st')) \<and>
           check_and_dispatch st [now] = Some (Inr (None, st')) \<and>
           dispatched st [now] = Some (Inr []) \<and>
           next_tp (nodes st' (buff st ! 0)) =
             (if interval_ns (nodes st (buff st ! 0)) = 0 then kMaxTimePoint
              else next_tp (nodes st (buff st ! 0)) + interval_ns (nodes st (buff st ! 0))) \<and>
           running (nodes st' (buff st ! 0)) \<and>
           (\<forall>st2 t st3. next_tp (nodes st2 (buff st ! 0)) = next_tp (nodes st' (buff st ! 0)) \<and>
              t < next_tp (nodes st2 (buff st ! 0)) \<longrightarrow>
              check_task_step st2 t \<noteq> Some (Inr (Due (buff st ! 0), st3)))"
proof -
  from check_task_step_on_due [OF assms(1-4)] assms(5) obtain st' where
    st': "check_task_step st now = Some (Inr (Busy, st'))"
      "moved (buff st ! 0) (next_deadline st) st st'"
    by auto
  have "next_tp (nodes st' (buff st ! 0)) = next_deadline st"
    "running (nodes st' (buff st ! 0))"
    using moved_fields(1,6) [OF st'(2)] assms(5) by simp_all
  moreover have "check_and_dispatch st [now] = Some (Inr (None, st'))"
    "dispatched st [now] = Some (Inr [])"
    using st'(1) by (simp_all add: check_and_dispatch_def)
  moreover have "check_task_step st2 t \<noteq> Some (Inr (Due h, st3))"
    if "t < next_tp (nodes st2 h)" for st2 t st3 h
    using due_only_when_reached [of st2 t h st3] that by auto
  ultimately show ?thesis
    using st'(1) by (auto simp: next_deadline_def)
qed

text \<open>
  Witness for C6: node 0 of the two-timer heap is the due root and is running; the round
  at clock 15 dispatches nothing and leaves it with the deadline \<open>10 + 10^9\<close>.
\<close>

theorem running_task_skipped_witness:
  "slot_inv two_timers \<and> length (buff two_timers) < 2 ^ 31 \<and> buff two_timers \<noteq> [] \<and>
   next_tp (nodes two_timers (buff two_timers ! 0)) \<le> 15 \<and>
   running (nodes two_timers (buff two_timers ! 0)) \<and>
   (\<exists>st'. check_task_step two_timers 15 = Some (Inr (Busy, st')) \<and>
      check_and_dispatch two_timers [15] = Some (Inr (None, st')) \<and>
      dispatched two_timers [15] = Some (Inr []) \<and>
      next_tp (nodes st' 0) = 1000000010 \<and> running (nodes st' 0))"
proof -
  have h: "length (buff two_timers) < 2 ^ 31" "buff two_timers \<noteq> []"
    "next_tp (nodes two_timers (buff two_timers ! 0)) \<le> 15"
    "running (nodes two_timers (buff two_timers ! 0))"
    "buff two_timers ! 0 = 0" "interval_ns (nodes two_timers 0) = 1000000000"
    "next_tp (nodes two_timers 0) = 10"
    by (simp_all add: two_timers_def)
  have "\<exists>st'. check_task_step two_timers 15 = Some (Inr (Busy, st')) \<and>
      check_and_dispatch two_timers [15] = Some (Inr (None, st')) \<and>
      dispatched two_timers [15] = Some (Inr []) \<and>
      next_tp (nodes st' 0) = 1000000010 \<and> running (nodes st' 0)"
    using running_task_skipped [OF slot_inv_two_timers h(1,2,3,4)]
    unfolding h(5) by (auto simp: h(6,7) simp del: dispatched.simps check_task.simps)
  then show ?thesis
    using slot_inv_two_timers h(1,2,3,4) by blast
qed

text \<open>
  Counterexample to C9 as stated: destroying the timer of the root lets the other node
  rise to slot 0, so its \<open>index\<close> and its place in the vector change.
\<close>

theorem destructor_moves_others_counterexample:
  "slot_after (Timer_delete two_timers \<lparr>handler = Some 0\<rparr>) 1 = Some ([1, 0], 0) \<and>
   buff two_timers = [0, 1] \<and> index (nodes two_timers 1) = 1"
  by (simp add: slot_after_def Timer_delete_def stop_def lift_int_def two_timers_def
      kMaxTimePoint_def eval_defs)

lemma raised_slots:
  assumes s: "slot_inv st" and s': "slot_inv st'"
    and r: "raised (buff st) (buff st') h"
    and e: "set (buff st') = set (buff st)" "length (buff st') = length (buff st)"
    and a: "a \<in> set (buff st)" "a \<noteq> h"
  shows "unat (index (nodes st' a)) = unat (index (nodes st a)) \<or>
         0 < unat (index (nodes st a)) \<and>
         unat (index (nodes st' a)) = (unat (index (nodes st a)) - 1) div 2"
proof -
  define k where "k = unat (index (nodes st a))"
  define k' where "k' = unat (index (nodes st' a))"
  have k: "k < length (buff st)" "buff st ! k = a"
    using slot_inv_index [OF s a(1)] by (simp_all add: k_def)
  have k': "k' < length (buff st)" "buff st' ! k' = a"
    using slot_inv_index [OF s', of a] a(1) e by (simp_all add: k'_def)
  from r k'(1) consider "buff st' ! k' = buff st ! k'" | "buff st' ! k' = h"
    | c where "c < length (buff st)" "c = 2 * k' + 1 \<or> c = 2 * k' + 2"
        "buff st' ! k' = buff st ! c"
    unfolding raised_def by blast
  then have "k' = k \<or> 0 < k \<and> k' = (k - 1) div 2"
  proof cases
    case 1
    then have "k' = k"
      using slot_inv_distinct [OF s k'(1) k(1)] k k' by simp
    then show ?thesis ..
  next
    case 2
    then show ?thesis
      using k' a(2) by simp
  next
    case 3
    then have "c = k"
      using slot_inv_distinct [OF s 3(1) k(1)] k k' by simp
    then show ?thesis
      using 3(2) by auto
  qed
  then show ?thesis
    unfolding k_def k'_def .
qed

lemma lowered_slots:
  assumes s: "slot_inv st" and s': "slot_inv st'"
    and r: "lowered (buff st) (buff st') h"
    and e: "set (buff st') = set (buff st)" "length (buff st') = length (buff st)"
    and a: "a \<in> set (buff st)" "a \<noteq> h"
  shows "unat (index (nodes st' a)) = unat (index (nodes st a)) \<or>
         0 < unat (index (nodes st' a)) \<and>
         (unat (index (nodes st' a)) - 1) div 2 = unat (index (nodes st a))"
proof -
  define k where "k = unat (index (nodes st a))"
  define k' where "k' = unat (index (nodes st' a))"
  have k: "k < length (buff st)" "buff st ! k = a"
    using slot_inv_index [OF s a(1)] by (simp_all add: k_def)
  have k': "k' < length (buff st)" "buff st' ! k' = a"
    using slot_inv_index [OF s', of a] a(1) e by (simp_all add: k'_def)
  from r k'(1) consider "buff st' ! k' = buff st ! k'" | "buff st' ! k' = h"
    | "0 < k'" "buff st' ! k' = buff st ! ((k' - 1) div 2)"
    unfolding lowered_def by blast
  then have "k' = k \<or> 0 < k' \<and> (k' - 1) div 2 = k"
  proof cases
    case 1
    then have "k' = k"
      using slot_inv_distinct [OF s k'(1) k(1)] k k' by simp
    then show ?thesis ..
  next
    case 2
    then show ?thesis
      using k' a(2) by simp
  next
    case 3
    have "(k' - 1) div 2 < length (buff st)"
      using k'(1) by simp
    then have "(k' - 1) div 2 = k"
      using slot_inv_distinct [OF s _ k(1)] k k' 3(2) by simp
    then show ?thesis
      using 3(1) by simp
  qed
  then show ?thesis
    unfolding k_def k'_def .
qed

lemma slot_inv_late_timers: "slot_inv late_timers"
  unfolding slot_inv_def
proof (intro allI impI)
  fix i :: nat assume "i < length (buff late_timers)"
  then have "i = 0 \<or> i = 1"
    by (auto simp: late_timers_def)
  then show "unat (index (nodes late_timers (buff late_timers ! i))) = i"
    by (auto simp: late_timers_def)
qed

text \<open>
  Claim C9, amended. Destroying a \<^verbatim>\<open>Timer\<close> whose node is in the heap returns 0; the
  node stays in the heap with the sentinel deadline, the heap holds the same nodes in
  the same number, every node is again in the slot its \<open>index\<close> names, and no field
  of any other node changes except \<open>index\<close>: each other node keeps its slot or
  rises to the parent slot, the stopped node being sifted down. (The sentinel is
  \<open>2\<^sup>6\<^sup>3 - 1\<close>, not the largest deadline: a node stopped while its deadline is
  beyond the sentinel is sifted up, and then each other node keeps its slot or moves to a
  child slot.)
\<close>

theorem destructor_parks_node:
  assumes "slot_inv st" and "length (buff st) < 2 ^ 31"
    and "handler t = Some h" and "h \<in> set (buff st)"
  shows "\<exists>st'. Timer_delete st t = Some (Inr (0, st')) \<and>
           h \<in> set (buff st') \<and> next_tp (nodes st' h) = kMaxTimePoint \<and>
           length (buff st') = length (buff st) \<and> mset (buff st') = mset (buff st) \<and>
           slot_inv st' \<and> fresh st' = fresh st \<and>
           (\<forall>a. a \<noteq> h \<longrightarrow> nodes st' a = (nodes st a)\<lparr>index := index (nodes st' a)\<rparr>) \<and>
           nodes st' h = (nodes st h)\<lparr>index := index (nodes st' h),
                                      next_tp := kMaxTimePoint\<rparr> \<and>
           (next_tp (nodes st h) \<le> kMaxTimePoint \<longrightarrow>
            (\<forall>a \<in> set (buff st). a \<noteq> h \<longrightarrow>
              unat (index (nodes st' a)) = unat (index (nodes st a)) \<or>
              0 < unat (index (nodes st a)) \<and>
              unat (index (nodes st' a)) = (unat (index (nodes st a)) - 1) div 2)) \<and>
           (kMaxTimePoint < next_tp (nodes st h) \<longrightarrow>
            (\<forall>a \<in> set (buff st). a \<noteq> h \<longrightarrow>
              unat (index (nodes st' a)) = unat (index (nodes st a)) \<or>
              0 < unat (index (nodes st' a)) \<and>
              (unat (index (nodes st' a)) - 1) div 2 = unat (index (nodes st a)))) \<and>
           (heap_ord st \<longrightarrow> heap_ord st')"
proof -
  from update_place_correct [OF assms(2,1,4), of kMaxTimePoint] obtain st' where
    st': "update_place st h kMaxTimePoint = Some (Inr st')" "slot_inv st'"
      "moved h kMaxTimePoint st st'" "heap_ord st \<Longrightarrow> heap_ord st'"
      "next_tp (nodes st h) \<le> kMaxTimePoint \<Longrightarrow> raised (buff st) (buff st') h"
      "kMaxTimePoint \<le> next_tp (nodes st h) \<Longrightarrow> lowered (buff st) (buff st') h"
    by auto
  have run: "Timer_delete st t = Some (Inr (0, st'))"
    using assms(3) st'(1) by (simp add: Timer_delete_def stop_def lift_int_def Let_def)
  have m: "mset (buff st') = mset (buff st)" "fresh st' = fresh st"
    "\<And>a. nodes st' a = (nodes st a)\<lparr>index := index (nodes st' a),
        next_tp := (if a = h then kMaxTimePoint else next_tp (nodes st a))\<rparr>"
    using st'(3) by (simp_all add: moved_def)
  have o: "nodes st' a = (nodes st a)\<lparr>index := index (nodes st' a)\<rparr>" if "a \<noteq> h" for a
    by (subst m(3)) (simp add: that)
  have s: "nodes st' h = (nodes st h)\<lparr>index := index (nodes st' h),
             next_tp := kMaxTimePoint\<rparr>"
    by (subst m(3)) simp
  have p: "unat (index (nodes st' a)) = unat (index (nodes st a)) \<or>
        0 < unat (index (nodes st a)) \<and>
        unat (index (nodes st' a)) = (unat (index (nodes st a)) - 1) div 2"
    if "next_tp (nodes st h) \<le> kMaxTimePoint" "a \<in> set (buff st)" "a \<noteq> h" for a
    using raised_slots [OF assms(1) st'(2) st'(5) [OF that(1)] moved_fields(7,8) [OF st'(3)]
        that(2,3)] .
  have q: "unat (index (nodes st' a)) = unat (index (nodes st a)) \<or>
        0 < unat (index (nodes st' a)) \<and>
        (unat (index (nodes st' a)) - 1) div 2 = unat (index (nodes st a))"
    if "kMaxTimePoint < next_tp (nodes st h)" "a \<in> set (buff st)" "a \<noteq> h" for a
    using lowered_slots [OF assms(1) st'(2) st'(6) [OF less_imp_le [OF that(1)]]
        moved_fields(7,8) [OF st'(3)] that(2,3)] .
  show ?thesis
    using run st'(2,4) m(1,2) o s p q moved_fields(1,7,8) [OF st'(3)] assms(4) by simp
qed

text \<open>
  Witness for C9: the timer of node 0 of the two-timer heap is destroyed (deadline 10,
  sifted down), and the timer of node 1 of the late heap (deadline beyond the sentinel,
  sifted up: node 0 moves from slot 0 to its child slot 1).
\<close>

theorem destructor_parks_node_witness:
  "slot_inv two_timers \<and> length (buff two_timers) < 2 ^ 31 \<and>
   handler \<lparr>handler = Some 0\<rparr> = Some 0 \<and> 0 \<in> set (buff two_timers) \<and>
   next_tp (nodes two_timers 0) \<le> kMaxTimePoint \<and>
   (\<exists>st'. Timer_delete two_timers \<lparr>handler = Some 0\<rparr> = Some (Inr (0, st')) \<and>
      0 \<in> set (buff st') \<and> next_tp (nodes st' 0) = kMaxTimePoint \<and>
      length (buff st') = length (buff two_timers) \<and>
      (\<forall>a. a \<noteq> 0 \<longrightarrow> nodes st' a = (nodes two_timers a)\<lparr>index := index (nodes st' a)\<rparr>) \<and>
      (\<forall>a \<in> set (buff two_timers). a \<noteq> 0 \<longrightarrow>
         unat (index (nodes st' a)) = unat (index (nodes two_timers a)) \<or>
         0 < unat (index (nodes two_timers a)) \<and>
         unat (index (nodes st' a)) = (unat (index (nodes two_timers a)) - 1) div 2)) \<and>
   slot_inv late_timers \<and> length (buff late_timers) < 2 ^ 31 \<and>
   handler \<lparr>handler = Some 1\<rparr> = Some 1 \<and> 1 \<in> set (buff late_timers) \<and>
   kMaxTimePoint < next_tp (nodes late_timers 1) \<and>
   (\<exists>st'. Timer_delete late_timers \<lparr>handler = Some 1\<rparr> = Some (Inr (0, st')) \<and>
      next_tp (nodes st' 1) = kMaxTimePoint \<and> buff st' = [1, 0] \<and>
      (\<forall>a \<in> set (buff late_timers). a \<noteq> 1 \<longrightarrow>
         unat (index (nodes st' a)) = unat (index (nodes late_timers a)) \<or>
         0 < unat (index (nodes st' a)) \<and>
         (unat (index (nodes st' a)) - 1) div 2 = unat (index (nodes late_timers a))))"
proof -
  have h: "length (buff two_timers) < 2 ^ 31" "handler \<lparr>handler = Some 0\<rparr> = Some 0"
    "0 \<in> set (buff two_timers)"
    by (simp_all add: two_timers_def)
  have k: "next_tp (nodes two_timers 0) \<le> kMaxTimePoint"
    by (simp add: two_timers_def kMaxTimePoint_def)
  have h': "length (buff late_timers) < 2 ^ 31" "handler \<lparr>handler = Some 1\<rparr> = Some 1"
    "1 \<in> set (buff late_timers)"
    by (simp_all add: late_timers_def)
  have k': "kMaxTimePoint < next_tp (nodes late_timers 1)"
    by (simp add: late_timers_def kMaxTimePoint_def)
  have r: "Timer_delete late_timers \<lparr>handler = Some 1\<rparr> = Some (Inr (0, st')) \<Longrightarrow>
           buff st' = [1, 0]" for st'
    by (auto simp: eval_defs Timer_delete_def stop_def lift_int_def late_timers_def
        kMaxTimePoint_def new_TimerNode_def Let_def)
  have a: "\<exists>st'. Timer_delete two_timers \<lparr>handler = Some 0\<rparr> = Some (Inr (0, st')) \<and>
      0 \<in> set (buff st') \<and> next_tp (nodes st' 0) = kMaxTimePoint \<and>
      length (buff st') = length (buff two_timers) \<and>
      (\<forall>a. a \<noteq> 0 \<longrightarrow> nodes st' a = (nodes two_timers a)\<lparr>index := index (nodes st' a)\<rparr>) \<and>
      (\<forall>a \<in> set (buff two_timers). a \<noteq> 0 \<longrightarrow>
         unat (index (nodes st' a)) = unat (index (nodes two_timers a)) \<or>
         0 < unat (index (nodes two_timers a)) \<and>
         unat (index (nodes st' a)) = (unat (index (nodes two_timers a)) - 1) div 2)"
    using destructor_parks_node [OF slot_inv_two_timers h] k by blast
  have b: "\<exists>st'. Timer_delete late_timers \<lparr>handler = Some 1\<rparr> = Some (Inr (0, st')) \<and>
      next_tp (nodes st' 1) = kMaxTimePoint \<and> buff st' = [1, 0] \<and>
      (\<forall>a \<in> set (buff late_timers). a \<noteq> 1 \<longrightarrow>
         unat (index (nodes st' a)) = unat (index (nodes late_timers a)) \<or>
         0 < unat (index (nodes st' a)) \<and>
         (unat (index (nodes st' a)) - 1) div 2 = unat (index (nodes late_timers a)))"
    using destructor_parks_node [OF slot_inv_late_timers h'] k' r by blast
  show ?thesis
    using a b slot_inv_two_timers slot_inv_late_timers h h' k k' by blast
qed

subsection \<open>Registration keeps the invariants\<close>

text \<open>
  Witness for C8: on the empty manager \<^verbatim>\<open>top()\<close> would throw, and the round waits
  without reading the root.
\<close>

theorem empty_heap_error_not_surfaced_witness:
  "heap_empty init_state \<and> length (buff init_state) < 2 ^ 31 \<and>
   heap_top init_state = Inl OutOfRange \<and>
   check_task_step init_state 0 = Some (Inr (Wait kMaxTimePoint, init_state)) \<and>
   check_task_step init_state 0 \<noteq> Some (Inl OutOfRange) \<and>
   check_task init_state [0] \<noteq> Some (Inl OutOfRange) \<and>
   (\<exists>r st'. check_task_step init_state 0 = Some (Inr (r, st')))"
proof -
  have h: "heap_empty init_state" "length (buff init_state) < 2 ^ 31"
    by (simp_all add: init_state_def heap_empty_def)
  show ?thesis
    using empty_heap_error_not_surfaced [of init_state 0 OutOfRange "[0]"] h by blast
qed

text \<open>
  \<^verbatim>\<open>add_timer\<close> appends with \<^verbatim>\<open>push\<close>, without sifting: the new node is dormant, so
  the slot invariant survives, and so does heap order when no deadline in the heap is
  beyond the sentinel.
\<close>

lemma add_timer_invariants:
  assumes s: "slot_inv st" and f: "\<forall>a \<in> set (buff st). a < fresh st"
    and n: "length (buff st) + 1 < 2 ^ 31"
    and a: "add_timer st nm cb interval_ms delay_ms = (r, st')"
  shows "slot_inv st'" and "\<forall>a \<in> set (buff st'). a < fresh st'"
    and "heap_ord st \<Longrightarrow> \<forall>a \<in> set (buff st). next_tp (nodes st a) \<le> kMaxTimePoint \<Longrightarrow>
           heap_ord st'"
proof -
  note t = add_timer_node [OF a]
  have b: "buff st' = buff st @ [fresh st]" "fresh st' = Suc (fresh st)"
    "index (nodes st' (fresh st)) = of_nat (length (buff st))"
    "next_tp (nodes st' (fresh st)) = kMaxTimePoint"
    using t by simp_all
  have old: "nodes st' (buff st ! i) = nodes st (buff st ! i)" if "i < length (buff st)" for i
  proof -
    have "buff st ! i \<noteq> fresh st"
      using f that by (metis nth_mem less_irrefl)
    then show ?thesis
      using t by simp
  qed
  have u: "unat (of_nat (length (buff st)) :: 32 word) = length (buff st)"
    using n by (intro unat_of_nat32) simp
  show "slot_inv st'"
    unfolding slot_inv_def b(1)
  proof (intro allI impI)
    fix i assume "i < length (buff st @ [fresh st])"
    then consider "i < length (buff st)" | "i = length (buff st)"
      by fastforce
    then show "unat (index (nodes st' ((buff st @ [fresh st]) ! i))) = i"
    proof cases
      case 1
      then show ?thesis
        using s old by (simp add: nth_append slot_inv_def)
    next
      case 2
      then show ?thesis
        using b(3) u by simp
    qed
  qed
  show "\<forall>a \<in> set (buff st'). a < fresh st'"
    using f b by auto
  show "heap_ord st'"
    if o: "heap_ord st" and m: "\<forall>a \<in> set (buff st). next_tp (nodes st a) \<le> kMaxTimePoint"
    unfolding heap_ord_def b(1)
  proof (intro allI impI)
    fix i assume i: "i < length (buff st @ [fresh st])" "0 < i"
    then have p: "(i - 1) div 2 < length (buff st)"
      by auto
    consider "i < length (buff st)" | "i = length (buff st)"
      using i by fastforce
    then show "next_tp (nodes st' ((buff st @ [fresh st]) ! ((i - 1) div 2)))
                 \<le> next_tp (nodes st' ((buff st @ [fresh st]) ! i))"
    proof cases
      case 1
      then show ?thesis
        using o i p old by (simp add: nth_append heap_ord_def)
    next
      case 2
      have "next_tp (nodes st (buff st ! ((i - 1) div 2))) \<le> kMaxTimePoint"
        using m p by simp
      then show ?thesis
        using 2 p b(4) old [OF p] by (simp add: nth_append)
    qed
  qed
qed

end
